theory Spec2Isabelle
  imports Main "HOL-Library.Word"
begin

unbundle bit_operations_syntax

section \<open>The xs string type of xs.c\<close>

text \<open>
  A shallow embedding of \<^verbatim>\<open>src/xs.c\<close>: a 16-byte string value that keeps up to 15
  bytes inline, and otherwise points to a heap buffer (``medium'' strings own it, ``large''
  strings share it through a reference count stored in the first four bytes of the buffer).

  The value is modelled as its 16 bytes, read the way GCC lays the union out on x86-64
  (little-endian, bit-fields allocated from the least significant bit): bytes 0..7 are
  \<^verbatim>\<open>ptr\<close>; bytes 8..15 are one 64-bit unit holding \<^verbatim>\<open>size\<close> in bits 0..53 and
  \<^verbatim>\<open>capacity\<close> in bits 54..59; byte 15 holds \<^verbatim>\<open>space_left\<close> in its low nibble and
  \<^verbatim>\<open>is_ptr\<close>, \<^verbatim>\<open>is_large_string\<close> in bits 4 and 5.

  The heap is a map from block addresses to byte lists. Every access is bounds-checked:
  what is undefined behaviour in C is a \<open>fault\<close> of the model. Memory that \<^verbatim>\<open>malloc\<close>
  returns is not initialised: its bytes are whatever the heap's \<open>junk\<close> function says.
  \<^verbatim>\<open>malloc\<close> is taken to succeed always (the source never checks it).
\<close>

type_synonym byte = "8 word"
type_synonym xs = "byte list"

datatype fault =
    OutOfBounds      \<comment> \<open>access outside a block or outside the 16 bytes of a value\<close>
  | InvalidPointer   \<comment> \<open>\<^verbatim>\<open>free\<close>, \<^verbatim>\<open>realloc\<close> or access through a pointer that is no live block\<close>
  | UndefinedClz     \<comment> \<open>\<^verbatim>\<open>__builtin_clz(0)\<close>\<close>
  | ShiftOverflow    \<comment> \<open>\<^verbatim>\<open>1 << n\<close> on \<^verbatim>\<open>int\<close> with \<open>n \<ge> 31\<close>\<close>
  | SignedOverflow   \<comment> \<open>\<^verbatim>\<open>++\<close> or \<^verbatim>\<open>--\<close> on an \<^verbatim>\<open>int\<close> at its bound\<close>
  | NoReturnValue    \<comment> \<open>the value of a function that reached its closing brace is used\<close>

definition bnd :: "fault + 'a \<Rightarrow> ('a \<Rightarrow> fault + 'b) \<Rightarrow> fault + 'b" where
  "bnd m f = (case m of Inl e \<Rightarrow> Inl e | Inr v \<Rightarrow> f v)"

subsection \<open>Little-endian integers\<close>

definition le_word :: "byte list \<Rightarrow> 'a::len word" where
  "le_word bs = foldr (\<lambda>b w. ucast b OR push_bit 8 w) bs 0"

definition le_bytes :: "nat \<Rightarrow> 'a::len word \<Rightarrow> byte list" where
  "le_bytes n w = map (\<lambda>i. ucast (drop_bit (8 * i) w)) [0..<n]"

text \<open>\<^verbatim>\<open>size_t\<close> subtraction wraps around.\<close>

definition sub64 :: "nat \<Rightarrow> nat \<Rightarrow> nat" where
  "sub64 a b = (a + 2 ^ 64 - b mod 2 ^ 64) mod 2 ^ 64"

subsection \<open>The fields of the union\<close>

definition hi :: "xs \<Rightarrow> 64 word" where
  "hi x = le_word (drop 8 x)"

definition set_hi :: "64 word \<Rightarrow> xs \<Rightarrow> xs" where
  "set_hi w x = take 8 x @ le_bytes 8 w"

definition fld_ptr :: "xs \<Rightarrow> nat" where
  "fld_ptr x = unat (le_word (take 8 x) :: 64 word)"

definition fld_size :: "xs \<Rightarrow> nat" where
  "fld_size x = unat (take_bit 54 (hi x))"

definition fld_capacity :: "xs \<Rightarrow> nat" where
  "fld_capacity x = unat (take_bit 6 (drop_bit 54 (hi x)))"

definition space_left :: "xs \<Rightarrow> nat" where
  "space_left x = unat (take_bit 4 (x ! 15))"

definition is_ptr :: "xs \<Rightarrow> bool" where
  "is_ptr x = bit (x ! 15) 4"

definition is_large_string :: "xs \<Rightarrow> bool" where
  "is_large_string x = bit (x ! 15) 5"

definition set_ptr :: "nat \<Rightarrow> xs \<Rightarrow> xs" where
  "set_ptr p x = le_bytes 8 (of_nat p :: 64 word) @ drop 8 x"

definition set_size :: "nat \<Rightarrow> xs \<Rightarrow> xs" where
  "set_size v x = set_hi ((hi x AND NOT (mask 54)) OR take_bit 54 (of_nat v)) x"

definition set_capacity :: "nat \<Rightarrow> xs \<Rightarrow> xs" where
  "set_capacity v x =
     set_hi ((hi x AND NOT (push_bit 54 (mask 6))) OR push_bit 54 (take_bit 6 (of_nat v))) x"

definition set_space_left :: "nat \<Rightarrow> xs \<Rightarrow> xs" where
  "set_space_left v x = x[15 := (x ! 15 AND NOT (mask 4)) OR take_bit 4 (of_nat v)]"

definition set_is_ptr :: "xs \<Rightarrow> xs" where
  "set_is_ptr x = x[15 := set_bit 4 (x ! 15)]"

definition set_is_large_string :: "xs \<Rightarrow> xs" where
  "set_is_large_string x = x[15 := set_bit 5 (x ! 15)]"

subsection \<open>The heap\<close>

record heap =
  blocks :: "nat \<rightharpoonup> byte list"
  brk :: nat
  junk :: "nat \<Rightarrow> byte"

text \<open>The bytes of a block that \<^verbatim>\<open>malloc\<close> has just returned.\<close>

definition fresh_block :: "heap \<Rightarrow> nat \<Rightarrow> byte list" where
  "fresh_block h n = map (junk h) [brk h..<brk h + n]"

definition malloc :: "heap \<Rightarrow> nat \<Rightarrow> nat \<times> heap" where
  "malloc h n =
     (brk h, h\<lparr>blocks := (blocks h)(brk h \<mapsto> fresh_block h n), brk := brk h + n + 16\<rparr>)"

text \<open>\<^verbatim>\<open>realloc\<close> of the null pointer is \<^verbatim>\<open>malloc\<close>; of a live block, a new block that
  keeps the old bytes as far as both sizes reach (the model always moves the block).\<close>

definition realloc :: "heap \<Rightarrow> nat \<Rightarrow> nat \<Rightarrow> fault + nat \<times> heap" where
  "realloc h p n =
     (if p = 0 then Inr (malloc h n)
      else case blocks h p of
        None \<Rightarrow> Inl InvalidPointer
      | Some old \<Rightarrow>
          Inr (brk h,
               h\<lparr>blocks := ((blocks h)(p := None))
                    (brk h \<mapsto> take n old @ map (junk h) [brk h + length old..<brk h + n]),
                 brk := brk h + n + 16\<rparr>))"

definition free :: "heap \<Rightarrow> nat \<Rightarrow> fault + heap" where
  "free h p =
     (if p = 0 then Inr h
      else if blocks h p = None then Inl InvalidPointer
      else Inr (h\<lparr>blocks := (blocks h)(p := None)\<rparr>))"

text \<open>A \<^verbatim>\<open>char *\<close> obtained from a value points into the value's own 16 bytes or into a
  heap block; it is read relative to the value it was obtained from.\<close>

datatype loc = Own nat | Blk nat nat

fun loc_add :: "loc \<Rightarrow> nat \<Rightarrow> loc" where
  "loc_add (Own i) k = Own (i + k)"
| "loc_add (Blk p i) k = Blk p (i + k)"

definition overwrite :: "byte list \<Rightarrow> nat \<Rightarrow> byte list \<Rightarrow> byte list" where
  "overwrite bs i cs = take i bs @ cs @ drop (i + length cs) bs"

definition load :: "heap \<Rightarrow> xs \<Rightarrow> loc \<Rightarrow> nat \<Rightarrow> fault + byte list" where
  "load h x l n =
     (case l of
        Own i \<Rightarrow> if i + n \<le> 16 then Inr (take n (drop i x)) else Inl OutOfBounds
      | Blk p i \<Rightarrow>
          (case blocks h p of
             None \<Rightarrow> Inl InvalidPointer
           | Some bs \<Rightarrow> if i + n \<le> length bs then Inr (take n (drop i bs)) else Inl OutOfBounds))"

definition store :: "heap \<Rightarrow> xs \<Rightarrow> loc \<Rightarrow> byte list \<Rightarrow> fault + xs \<times> heap" where
  "store h x l cs =
     (case l of
        Own i \<Rightarrow> if i + length cs \<le> 16 then Inr (overwrite x i cs, h) else Inl OutOfBounds
      | Blk p i \<Rightarrow>
          (case blocks h p of
             None \<Rightarrow> Inl InvalidPointer
           | Some bs \<Rightarrow>
               if i + length cs \<le> length bs
               then Inr (x, h\<lparr>blocks := (blocks h)(p \<mapsto> overwrite bs i cs)\<rparr>)
               else Inl OutOfBounds))"

text \<open>The reference count: an \<^verbatim>\<open>int\<close> at the start of the block.\<close>

definition load_int :: "heap \<Rightarrow> nat \<Rightarrow> fault + 32 word" where
  "load_int h p = bnd (load h [] (Blk p 0) 4) (\<lambda>bs. Inr (le_word bs))"

definition store_int :: "heap \<Rightarrow> nat \<Rightarrow> 32 word \<Rightarrow> fault + heap" where
  "store_int h p v = bnd (store h [] (Blk p 0) (le_bytes 4 v)) (\<lambda>(_, h'). Inr h')"

subsection \<open>Accessors\<close>

definition LARGE_STRING_LEN :: nat where
  "LARGE_STRING_LEN = 256"

definition xs_is_ptr :: "xs \<Rightarrow> bool" where
  "xs_is_ptr x = is_ptr x"

definition xs_is_large_string :: "xs \<Rightarrow> bool" where
  "xs_is_large_string x = is_large_string x"

definition xs_size :: "xs \<Rightarrow> nat" where
  "xs_size x = (if xs_is_ptr x then fld_size x else 15 - space_left x)"

definition xs_data :: "xs \<Rightarrow> loc" where
  "xs_data x =
     (if \<not> xs_is_ptr x then Own 0
      else if xs_is_large_string x then Blk (fld_ptr x) 4
      else Blk (fld_ptr x) 0)"

definition xs_capacity :: "xs \<Rightarrow> nat" where
  "xs_capacity x = (if xs_is_ptr x then 2 ^ fld_capacity x - 1 else 15)"

definition xs_set_ref_count :: "heap \<Rightarrow> xs \<Rightarrow> 32 word \<Rightarrow> fault + heap" where
  "xs_set_ref_count h x val = store_int h (fld_ptr x) val"

definition xs_inc_ref_count :: "heap \<Rightarrow> xs \<Rightarrow> fault + heap" where
  "xs_inc_ref_count h x =
     (if xs_is_large_string x
      then bnd (load_int h (fld_ptr x))
             (\<lambda>c. if c = 0x7FFFFFFF then Inl SignedOverflow
                   else store_int h (fld_ptr x) (c + 1))
      else Inr h)"

definition xs_dec_ref_count :: "heap \<Rightarrow> xs \<Rightarrow> fault + int \<times> heap" where
  "xs_dec_ref_count h x =
     (if \<not> xs_is_large_string x then Inr (0, h)
      else bnd (load_int h (fld_ptr x))
             (\<lambda>c. if c = 0x80000000 then Inl SignedOverflow
                   else bnd (store_int h (fld_ptr x) (c - 1)) (\<lambda>h'. Inr (sint (c - 1), h'))))"

definition xs_get_ref_count :: "heap \<Rightarrow> xs \<Rightarrow> fault + int" where
  "xs_get_ref_count h x =
     (if \<not> xs_is_large_string x then Inr 0
      else bnd (load_int h (fld_ptr x)) (\<lambda>c. Inr (sint c)))"

definition xs_literal_empty :: xs where
  "xs_literal_empty = replicate 15 0 @ [15]"

subsection \<open>Allocation\<close>

fun bit_length :: "nat \<Rightarrow> nat" where
  "bit_length n = (if n = 0 then 0 else Suc (bit_length (n div 2)))"

declare bit_length.simps [simp del]

definition builtin_clz :: "32 word \<Rightarrow> fault + nat" where
  "builtin_clz n = (if n = 0 then Inl UndefinedClz else Inr (32 - bit_length (unat n)))"

text \<open>The argument of \<open>ilog2\<close> is a \<^verbatim>\<open>uint32_t\<close>: a \<^verbatim>\<open>size_t\<close> passed to it is truncated.\<close>

definition ilog2 :: "nat \<Rightarrow> fault + nat" where
  "ilog2 n = bnd (builtin_clz (of_nat n)) (\<lambda>z. Inr (32 - z - 1))"

definition xs_allocate_data :: "heap \<Rightarrow> xs \<Rightarrow> nat \<Rightarrow> bool \<Rightarrow> fault + xs \<times> heap" where
  "xs_allocate_data h x len reallocate =
     (if len < LARGE_STRING_LEN then
        bnd (if reallocate then realloc h (fld_ptr x) (2 ^ fld_capacity x)
             else Inr (malloc h (2 ^ fld_capacity x)))
          (\<lambda>(p, h'). Inr (set_ptr p x, h'))
      else
        let x1 = set_is_large_string x in
        if 31 \<le> fld_capacity x1 then Inl ShiftOverflow
        else
          bnd (if reallocate then realloc h (fld_ptr x1) (2 ^ fld_capacity x1 + 4)
               else Inr (malloc h (2 ^ fld_capacity x1 + 4)))
            (\<lambda>(p, h').
               let x2 = set_ptr p x1 in
               bnd (xs_set_ref_count h' x2 1) (\<lambda>h''. Inr (x2, h''))))"

text \<open>A C string argument \<open>p\<close> stands for the memory \<open>p @ [0]\<close>: the listed bytes,
  then a terminator. \<^verbatim>\<open>strlen\<close> stops at the first zero byte.\<close>

definition strlen :: "byte list \<Rightarrow> nat" where
  "strlen p = length (takeWhile (\<lambda>b. b \<noteq> 0) p)"

definition xs_new :: "heap \<Rightarrow> byte list \<Rightarrow> fault + xs \<times> heap" where
  "xs_new h p =
     (let x = xs_literal_empty;
          len = strlen p + 1
      in if 16 < len then
           bnd (ilog2 len) (\<lambda>l.
             let x1 = set_capacity (l + 1) x;
                 x2 = set_size (len - 1) x1;
                 x3 = set_is_ptr x2
             in bnd (xs_allocate_data h x3 (fld_size x3) False) (\<lambda>(x4, h1).
                  store h1 x4 (xs_data x4) (take len (p @ [0]))))
         else
           bnd (store h x (Own 0) (take len (p @ [0]))) (\<lambda>(x1, h1).
             Inr (set_space_left (sub64 15 (len - 1)) x1, h1)))"

definition xs_grow :: "heap \<Rightarrow> xs \<Rightarrow> nat \<Rightarrow> fault + xs \<times> heap" where
  "xs_grow h x len =
     (if len \<le> xs_capacity x then Inr (x, h)
      else
        let buf = (if \<not> xs_is_ptr x then x else map (junk h) [0..<16]);
            x1 = set_is_ptr x
        in bnd (ilog2 len) (\<lambda>l.
             let x2 = set_capacity (l + 1) x1
             in if xs_is_ptr x2 then xs_allocate_data h x2 len True
                else bnd (xs_allocate_data h x2 len False) (\<lambda>(x3, h1).
                       store h1 x3 (xs_data x3) buf)))"

definition xs_newempty :: xs where
  "xs_newempty = xs_literal_empty"

definition xs_free :: "heap \<Rightarrow> xs \<Rightarrow> fault + xs \<times> heap" where
  "xs_free h x =
     (if xs_is_ptr x then
        bnd (xs_dec_ref_count h x) (\<lambda>(c, h1).
          if c \<le> 0 then bnd (free h1 (fld_ptr x)) (\<lambda>h2. Inr (xs_newempty, h2))
          else Inr (xs_newempty, h1))
      else Inr (xs_newempty, h))"

subsection \<open>Copy on write\<close>

text \<open>\<^verbatim>\<open>xs_cow_lazy_copy\<close> returns \<^verbatim>\<open>false\<close> when it has nothing to do. After a copy it
  reaches its closing brace with no \<^verbatim>\<open>return\<close>: the caller gets no value (\<open>None\<close>).\<close>

definition xs_cow_lazy_copy ::
  "heap \<Rightarrow> xs \<Rightarrow> loc \<Rightarrow> fault + xs \<times> heap \<times> loc \<times> bool option" where
  "xs_cow_lazy_copy h x data =
     bnd (xs_get_ref_count h x) (\<lambda>c.
       if c \<le> 1 then Inr (x, h, data, Some False)
       else
         bnd (xs_dec_ref_count h x) (\<lambda>(_, h1).
         bnd (xs_allocate_data h1 x (fld_size x) False) (\<lambda>(x1, h2).
         bnd (load h2 x1 data (fld_size x1)) (\<lambda>cs.
         bnd (store h2 x1 (xs_data x1) cs) (\<lambda>(x2, h3).
           Inr (x2, h3, xs_data x2, None))))))"

subsection \<open>Concatenation\<close>

definition xs_concat :: "heap \<Rightarrow> xs \<Rightarrow> xs \<Rightarrow> xs \<Rightarrow> fault + xs \<times> heap" where
  "xs_concat h string prefix suffix =
     (let pres = xs_size prefix; sufs = xs_size suffix;
          size = xs_size string; capacity = xs_capacity string;
          pre = xs_data prefix; suf = xs_data suffix
      in
      bnd (xs_cow_lazy_copy h string (xs_data string)) (\<lambda>(s0, h0, data, _).
        if size + pres + sufs \<le> capacity then
          bnd (load h0 s0 data size) (\<lambda>c1.
          bnd (store h0 s0 (loc_add data pres) c1) (\<lambda>(s1, h1).
          bnd (load h1 prefix pre pres) (\<lambda>c2.
          bnd (store h1 s1 data c2) (\<lambda>(s2, h2).
          bnd (load h2 suffix suf (sufs + 1)) (\<lambda>c3.
          bnd (store h2 s2 (loc_add data (pres + size)) c3) (\<lambda>(s3, h3).
            Inr (if xs_is_ptr s3 then set_size (size + pres + sufs) s3
                 else set_space_left (sub64 15 (size + pres + sufs)) s3, h3)))))))
        else
          bnd (xs_grow h0 xs_literal_empty (size + pres + sufs)) (\<lambda>(t0, g0).
          let tmpdata = xs_data t0 in
          bnd (load g0 s0 data size) (\<lambda>c1.
          bnd (store g0 t0 (loc_add tmpdata pres) c1) (\<lambda>(t1, g1).
          bnd (load g1 prefix pre pres) (\<lambda>c2.
          bnd (store g1 t1 tmpdata c2) (\<lambda>(t2, g2).
          bnd (load g2 suffix suf (sufs + 1)) (\<lambda>c3.
          bnd (store g2 t2 (loc_add tmpdata (pres + size)) c3) (\<lambda>(t3, g3).
          bnd (xs_free g3 s0) (\<lambda>(_, g4).
            Inr (set_size (size + pres + sufs) t3, g4)))))))))))"

subsection \<open>Trimming\<close>

definition check_bit :: "byte list \<Rightarrow> byte \<Rightarrow> bool" where
  "check_bit msk b \<longleftrightarrow> msk ! (unat b div 8) AND push_bit (unat b mod 8) 1 \<noteq> 0"

definition set_bit_mask :: "byte \<Rightarrow> byte list \<Rightarrow> byte list" where
  "set_bit_mask b msk =
     msk[unat b div 8 := msk ! (unat b div 8) OR push_bit (unat b mod 8) 1]"

text \<open>The bitmap of the cut set: one \<^verbatim>\<open>set_bit\<close> for each of the \<^verbatim>\<open>strlen(trimset)\<close>
  bytes before the terminator.\<close>

definition trim_mask :: "byte list \<Rightarrow> byte list" where
  "trim_mask trimset = fold set_bit_mask (take (strlen trimset) trimset) (replicate 32 0)"

text \<open>The two scanning loops. \<open>rd i\<close> reads \<^verbatim>\<open>dataptr[i]\<close>; the last argument of
  \<open>scan_fwd\<close> is the number of iterations left, \<open>slen - i\<close>.\<close>

fun scan_fwd :: "(nat \<Rightarrow> fault + byte) \<Rightarrow> byte list \<Rightarrow> nat \<Rightarrow> nat \<Rightarrow> fault + nat" where
  "scan_fwd rd msk i 0 = Inr i"
| "scan_fwd rd msk i (Suc k) =
     bnd (rd i) (\<lambda>b. if \<not> check_bit msk b then Inr i else scan_fwd rd msk (i + 1) k)"

fun scan_bwd :: "(nat \<Rightarrow> fault + byte) \<Rightarrow> byte list \<Rightarrow> nat \<Rightarrow> fault + nat" where
  "scan_bwd rd msk 0 = Inr 0"
| "scan_bwd rd msk (Suc k) =
     bnd (rd k) (\<lambda>b. if \<not> check_bit msk b then Inr (Suc k) else scan_bwd rd msk k)"

definition peek :: "heap \<Rightarrow> xs \<Rightarrow> loc \<Rightarrow> nat \<Rightarrow> fault + byte" where
  "peek h x l i = bnd (load h x (loc_add l i) 1) (\<lambda>bs. Inr (hd bs))"

definition xs_trim :: "heap \<Rightarrow> xs \<Rightarrow> byte list \<Rightarrow> fault + xs \<times> heap" where
  "xs_trim h x trimset =
     (if hd (trimset @ [0]) = 0 then Inr (x, h)
      else
        bnd (xs_cow_lazy_copy h x (xs_data x)) (\<lambda>(x0, h0, dataptr, copied).
          case copied of
            None \<Rightarrow> Inl NoReturnValue
          | Some c \<Rightarrow>
              let orig = (if c then dataptr else xs_data x);
                  msk = trim_mask trimset;
                  slen = xs_size x0
              in
              bnd (scan_fwd (peek h0 x0 dataptr) msk 0 slen) (\<lambda>i.
              bnd (scan_bwd (peek h0 x0 dataptr) msk slen) (\<lambda>slen1.
                let slen2 = sub64 slen1 i in
                bnd (load h0 x0 (loc_add dataptr i) slen2) (\<lambda>cs.
                bnd (store h0 x0 orig cs) (\<lambda>(x1, h1).
                bnd (peek h1 x1 orig slen2) (\<lambda>t.
                bnd (if t \<noteq> 0 then store h1 x1 (loc_add orig slen2) [0] else Inr (x1, h1))
                  (\<lambda>(x2, h2).
                    Inr (if xs_is_ptr x2 then set_size slen2 x2
                         else set_space_left (sub64 15 slen2) x2, h2)))))))))"

subsection \<open>Copying a value\<close>

definition xs_copy :: "heap \<Rightarrow> xs \<Rightarrow> fault + xs \<times> heap" where
  "xs_copy h src =
     (let dest = src in
      if \<not> xs_is_ptr src then Inr (dest, h)
      else if xs_is_large_string src then
        bnd (xs_inc_ref_count h src) (\<lambda>h1. Inr (dest, h1))
      else
        let (p, h1) = malloc h (2 ^ fld_capacity src);
            dest1 = set_ptr p dest
        in bnd (load h1 src (Blk (fld_ptr src) 0) (fld_size src)) (\<lambda>cs.
             store h1 dest1 (Blk (fld_ptr dest1) 0) cs))"

section \<open>Vocabulary of the claims\<close>

text \<open>The three variants of a value, read off its tag bits.\<close>

datatype variant = Inline | Exclusive_heap | Shared_heap

definition variant_of :: "xs \<Rightarrow> variant" where
  "variant_of x =
     (if \<not> xs_is_ptr x then Inline
      else if xs_is_large_string x then Shared_heap
      else Exclusive_heap)"

text \<open>What a caller observes through a value: the \<open>xs_size\<close> bytes at \<open>xs_data\<close>, and
  the byte that follows them.\<close>

definition content :: "heap \<Rightarrow> xs \<Rightarrow> fault + byte list" where
  "content h x = load h x (xs_data x) (xs_size x)"

definition terminator :: "heap \<Rightarrow> xs \<Rightarrow> fault + byte list" where
  "terminator h x = load h x (loc_add (xs_data x) (xs_size x)) 1"

text \<open>The bytes of a C string argument before its terminator.\<close>

definition c_str :: "byte list \<Rightarrow> byte list" where
  "c_str p = takeWhile (\<lambda>b. b \<noteq> 0) p"

text \<open>The values that \<open>xs_new\<close> builds: an inline value holding \<open>c\<close>, and the header of
  a heap value of size \<open>n\<close> and capacity exponent \<open>k\<close> before its pointer is set.\<close>

definition inline_of :: "byte list \<Rightarrow> xs" where
  "inline_of c = set_space_left (15 - length c) (overwrite xs_literal_empty 0 (c @ [0]))"

definition heap_hdr :: "nat \<Rightarrow> nat \<Rightarrow> xs" where
  "heap_hdr n k = set_is_ptr (set_size n (set_capacity k xs_literal_empty))"

text \<open>An empty heap whose uninitialised memory reads \<open>0xAA\<close>, for concrete runs.\<close>

definition heap0 :: heap where
  "heap0 = \<lparr>blocks = Map.empty, brk = 4096, junk = (\<lambda>_. 0xAA)\<rparr>"

text \<open>The value that an operation returns, when it returns.\<close>

definition result_value :: "fault + xs \<times> heap \<Rightarrow> xs option" where
  "result_value r = (case r of Inl _ \<Rightarrow> None | Inr (x, _) \<Rightarrow> Some x)"

text \<open>\<open>k\<close> is the least exponent with \<open>2 ^ k - 1 \<ge> n\<close>.\<close>

definition min_exponent :: "nat \<Rightarrow> nat \<Rightarrow> bool" where
  "min_exponent n k \<longleftrightarrow> n \<le> 2 ^ k - 1 \<and> (k = 0 \<or> 2 ^ (k - 1) - 1 < n)"

text \<open>The block at \<open>p\<close> starts with the reference count \<open>c\<close>; the heap with that
  count replaced.\<close>

definition count_block :: "heap \<Rightarrow> nat \<Rightarrow> 32 word \<Rightarrow> bool" where
  "count_block h p c \<longleftrightarrow> (\<exists>bs. blocks h p = Some bs \<and> 4 \<le> length bs \<and> le_word (take 4 bs) = c)"

definition set_count :: "heap \<Rightarrow> nat \<Rightarrow> 32 word \<Rightarrow> heap" where
  "set_count h p c =
     h\<lparr>blocks := (blocks h)(p \<mapsto> overwrite (the (blocks h p)) 0 (le_bytes 4 c))\<rparr>"

text \<open>The loops of the test driver: \<open>m\<close> copies of one value, and the release of a
  list of values.\<close>

fun xs_copy_times :: "nat \<Rightarrow> heap \<Rightarrow> xs \<Rightarrow> fault + xs list \<times> heap" where
  "xs_copy_times 0 h src = Inr ([], h)"
| "xs_copy_times (Suc m) h src =
     bnd (xs_copy h src) (\<lambda>(d, h1).
     bnd (xs_copy_times m h1 src) (\<lambda>(ds, h2). Inr (d # ds, h2)))"

fun xs_free_all :: "heap \<Rightarrow> xs list \<Rightarrow> fault + heap" where
  "xs_free_all h [] = Inr h"
| "xs_free_all h (x # rest) = bnd (xs_free h x) (\<lambda>(_, h1). xs_free_all h1 rest)"

text \<open>What trimming is to leave: the content without its leading and trailing runs of
  cut-set bytes.\<close>

definition trimmed :: "byte list \<Rightarrow> byte list \<Rightarrow> byte list" where
  "trimmed cutset c =
     rev (dropWhile (\<lambda>b. b \<in> set cutset) (rev (dropWhile (\<lambda>b. b \<in> set cutset) c)))"

section \<open>Lemmas about the model\<close>

subsection \<open>Little-endian encoding\<close>

lemma bit_le_word:
  "bit (le_word bs :: 'a::len word) n \<longleftrightarrow>
     n < LENGTH('a) \<and> n div 8 < length bs \<and> bit (bs ! (n div 8)) (n mod 8)"
proof (induction bs arbitrary: n)
  case Nil
  then show ?case by (simp add: le_word_def)
next
  case (Cons b bs)
  have step: "le_word (b # bs) = (ucast b OR push_bit 8 (le_word bs) :: 'a word)"
    by (simp add: le_word_def)
  show ?case
  proof (cases "n < 8")
    case True
    then show ?thesis
      by (auto simp: step bit_simps dest: bit_imp_le_length)
  next
    case False
    then obtain m where m: "n = m + 8"
      by (metis le_add_diff_inverse2 not_less)
    have "\<not> bit b n"
      using False by (auto dest: bit_imp_le_length)
    moreover have "(m + 8) div 8 = Suc (m div 8)" "(m + 8) mod 8 = m mod 8"
      by simp_all
    ultimately show ?thesis
      using Cons.IH [of m] by (auto simp: step bit_simps m)
  qed
qed

lemma length_le_bytes [simp]: "length (le_bytes n w) = n"
  by (simp add: le_bytes_def)

lemma nth_le_bytes: "i < n \<Longrightarrow> le_bytes n w ! i = ucast (drop_bit (8 * i) w)"
  by (simp add: le_bytes_def)

lemma le_word_le_bytes:
  "LENGTH('a::len) \<le> 8 * n \<Longrightarrow> le_word (le_bytes n w) = (w :: 'a word)"
  by (rule bit_eqI) (auto simp: bit_le_word nth_le_bytes bit_simps dest: bit_imp_le_length)

lemma unat_take_bit_of_nat:
  "unat (take_bit n (of_nat v :: 'a::len word)) = v mod 2 ^ min n LENGTH('a)"
proof -
  have "unat (take_bit n (of_nat v :: 'a word)) = take_bit n (take_bit LENGTH('a) v)"
    by (simp only: unsigned_take_bit_eq unsigned_of_nat of_nat_id)
  also have "\<dots> = take_bit (min n LENGTH('a)) v"
    by (simp only: take_bit_take_bit)
  finally show ?thesis
    by (simp only: take_bit_eq_mod)
qed

subsection \<open>Field algebra\<close>

lemma bit_hi:
  "length x = 16 \<Longrightarrow> bit (hi x) n \<longleftrightarrow> n < 64 \<and> bit (x ! (8 + n div 8)) (n mod 8)"
  by (auto simp: hi_def bit_le_word less_mult_imp_div_less)

lemma hi_set_hi [simp]: "hi (set_hi w x) = w" if "length x = 16"
  using that by (simp add: hi_def set_hi_def le_word_le_bytes)

lemma length_set_hi [simp]: "length x = 16 \<Longrightarrow> length (set_hi w x) = 16"
  by (simp add: set_hi_def)

lemma nth_set_hi_lo: "length x = 16 \<Longrightarrow> i < 8 \<Longrightarrow> set_hi w x ! i = x ! i"
  by (simp add: set_hi_def nth_append)

lemma byte15_set_hi: "length x = 16 \<Longrightarrow> set_hi w x ! 15 = ucast (drop_bit 56 w)"
  by (simp add: set_hi_def nth_append nth_le_bytes)

lemma take8_set_hi [simp]: "length x = 16 \<Longrightarrow> take 8 (set_hi w x) = take 8 x"
  by (simp add: set_hi_def)

lemma div8_eq7: "n div 8 = 7 \<Longrightarrow> n mod 8 = n - 56 \<and> 56 \<le> n \<and> n < 64" for n :: nat
  by presburger

lemma hi_upd15:
  "length x = 16 \<Longrightarrow> hi (x[15 := b]) = take_bit 56 (hi x) OR push_bit 56 (ucast b)"
  by (rule bit_eqI) (auto simp: bit_hi bit_simps nth_list_update dest!: div8_eq7)

lemma div8_56: "n < 8 \<Longrightarrow> (56 + n) div 8 = 7 \<and> (56 + n) mod 8 = n" for n :: nat
  by presburger

lemma byte15_hi: "length x = 16 \<Longrightarrow> x ! 15 = ucast (drop_bit 56 (hi x))"
  by (rule bit_eqI) (auto simp: bit_hi bit_simps div8_56 dest: bit_imp_le_length)

lemma is_ptr_hi: "length x = 16 \<Longrightarrow> is_ptr x \<longleftrightarrow> bit (hi x) 60"
  by (simp add: is_ptr_def bit_hi)

lemma is_large_string_hi: "length x = 16 \<Longrightarrow> is_large_string x \<longleftrightarrow> bit (hi x) 61"
  by (simp add: is_large_string_def bit_hi)

lemma space_left_hi: "length x = 16 \<Longrightarrow> space_left x = unat (take_bit 4 (drop_bit 56 (hi x)))"
proof -
  assume "length x = 16"
  then have "space_left x = unat (take_bit 4 (ucast (drop_bit 56 (hi x)) :: byte))"
    by (simp add: space_left_def byte15_hi)
  also have "\<dots> = take_bit 4 (take_bit 8 (unat (drop_bit 56 (hi x))))"
    by (simp add: unsigned_take_bit_eq unsigned_ucast_eq)
  also have "\<dots> = unat (take_bit 4 (drop_bit 56 (hi x)))"
    by (simp add: unsigned_take_bit_eq)
  finally show ?thesis .
qed

lemma hi_set_is_ptr: "length x = 16 \<Longrightarrow> hi (set_is_ptr x) = set_bit 60 (hi x)"
  unfolding set_is_ptr_def
  by (simp add: hi_upd15, simp add: byte15_hi) (rule bit_eqI, auto simp: bit_simps)

lemma hi_set_is_large_string:
  "length x = 16 \<Longrightarrow> hi (set_is_large_string x) = set_bit 61 (hi x)"
  unfolding set_is_large_string_def
  by (simp add: hi_upd15, simp add: byte15_hi) (rule bit_eqI, auto simp: bit_simps)

lemma hi_set_space_left:
  "length x = 16 \<Longrightarrow>
   hi (set_space_left v x) = (hi x AND NOT (push_bit 56 (mask 4))) OR push_bit 56 (take_bit 4 (of_nat v))"
  unfolding set_space_left_def
  by (simp add: hi_upd15, simp add: byte15_hi) (rule bit_eqI, auto simp: bit_simps)

lemma hi_set_ptr: "length x = 16 \<Longrightarrow> hi (set_ptr p x) = hi x"
  by (simp add: hi_def set_ptr_def)

lemma hi_set_size:
  "length x = 16 \<Longrightarrow> hi (set_size v x) = (hi x AND NOT (mask 54)) OR take_bit 54 (of_nat v)"
  by (simp add: set_size_def)

lemma hi_set_capacity:
  "length x = 16 \<Longrightarrow>
   hi (set_capacity v x) = (hi x AND NOT (push_bit 54 (mask 6))) OR push_bit 54 (take_bit 6 (of_nat v))"
  by (simp add: set_capacity_def)

lemmas hi_set = hi_set_is_ptr hi_set_is_large_string hi_set_space_left hi_set_ptr hi_set_size
  hi_set_capacity

lemma length_set [simp]:
  "length x = 16 \<Longrightarrow> length (set_is_ptr x) = 16"
  "length x = 16 \<Longrightarrow> length (set_is_large_string x) = 16"
  "length x = 16 \<Longrightarrow> length (set_space_left v x) = 16"
  "length x = 16 \<Longrightarrow> length (set_ptr p x) = 16"
  "length x = 16 \<Longrightarrow> length (set_size v x) = 16"
  "length x = 16 \<Longrightarrow> length (set_capacity v x) = 16"
  by (simp_all add: set_is_ptr_def set_is_large_string_def set_space_left_def set_ptr_def
      set_size_def set_capacity_def)

lemma fld_ptr_set [simp]:
  "length x = 16 \<Longrightarrow> fld_ptr (set_is_ptr x) = fld_ptr x"
  "length x = 16 \<Longrightarrow> fld_ptr (set_is_large_string x) = fld_ptr x"
  "length x = 16 \<Longrightarrow> fld_ptr (set_space_left v x) = fld_ptr x"
  "length x = 16 \<Longrightarrow> fld_ptr (set_size v x) = fld_ptr x"
  "length x = 16 \<Longrightarrow> fld_ptr (set_capacity v x) = fld_ptr x"
  by (simp_all add: fld_ptr_def set_is_ptr_def set_is_large_string_def set_space_left_def
      set_size_def set_capacity_def)

lemma fld_ptr_set_ptr [simp]: "fld_ptr (set_ptr p x) = p mod 2 ^ 64"
  by (simp add: fld_ptr_def set_ptr_def le_word_le_bytes unat_of_nat)

lemma is_ptr_set [simp]:
  "length x = 16 \<Longrightarrow> is_ptr (set_is_ptr x)"
  "length x = 16 \<Longrightarrow> is_ptr (set_is_large_string x) = is_ptr x"
  "length x = 16 \<Longrightarrow> is_ptr (set_space_left v x) = is_ptr x"
  "length x = 16 \<Longrightarrow> is_ptr (set_ptr p x) = is_ptr x"
  "length x = 16 \<Longrightarrow> is_ptr (set_size v x) = is_ptr x"
  "length x = 16 \<Longrightarrow> is_ptr (set_capacity v x) = is_ptr x"
  by (simp_all add: is_ptr_hi hi_set bit_simps)

lemma is_large_string_set [simp]:
  "length x = 16 \<Longrightarrow> is_large_string (set_is_ptr x) = is_large_string x"
  "length x = 16 \<Longrightarrow> is_large_string (set_is_large_string x)"
  "length x = 16 \<Longrightarrow> is_large_string (set_space_left v x) = is_large_string x"
  "length x = 16 \<Longrightarrow> is_large_string (set_ptr p x) = is_large_string x"
  "length x = 16 \<Longrightarrow> is_large_string (set_size v x) = is_large_string x"
  "length x = 16 \<Longrightarrow> is_large_string (set_capacity v x) = is_large_string x"
  by (simp_all add: is_large_string_hi hi_set bit_simps)

lemma take_bit_54_cong:
  "take_bit 54 (w :: 64 word) = take_bit 54 w' \<Longrightarrow> unat (take_bit 54 w) = unat (take_bit 54 w')"
  by simp

lemma fld_size_set [simp]:
  "length x = 16 \<Longrightarrow> fld_size (set_is_ptr x) = fld_size x"
  "length x = 16 \<Longrightarrow> fld_size (set_is_large_string x) = fld_size x"
  "length x = 16 \<Longrightarrow> fld_size (set_space_left v x) = fld_size x"
  "length x = 16 \<Longrightarrow> fld_size (set_ptr p x) = fld_size x"
  "length x = 16 \<Longrightarrow> fld_size (set_capacity v x) = fld_size x"
  unfolding fld_size_def
  by (simp_all add: hi_set) (rule arg_cong [where f = unat], rule bit_eqI, auto simp: bit_simps)+

lemma fld_size_set_size [simp]: "length x = 16 \<Longrightarrow> fld_size (set_size v x) = v mod 2 ^ 54"
proof -
  assume a: "length x = 16"
  have "take_bit 54 ((hi x AND NOT (mask 54)) OR take_bit 54 (of_nat v)) =
        (take_bit 54 (of_nat v) :: 64 word)"
    by (rule bit_eqI) (auto simp: bit_simps)
  then show ?thesis
    using a by (simp add: fld_size_def hi_set unat_take_bit_of_nat)
qed

lemma fld_capacity_set [simp]:
  "length x = 16 \<Longrightarrow> fld_capacity (set_is_ptr x) = fld_capacity x"
  "length x = 16 \<Longrightarrow> fld_capacity (set_is_large_string x) = fld_capacity x"
  "length x = 16 \<Longrightarrow> fld_capacity (set_ptr p x) = fld_capacity x"
  "length x = 16 \<Longrightarrow> fld_capacity (set_size v x) = fld_capacity x"
  unfolding fld_capacity_def
  by (simp_all add: hi_set) (rule arg_cong [where f = unat], rule bit_eqI, auto simp: bit_simps)+

lemma fld_capacity_set_capacity [simp]:
  "length x = 16 \<Longrightarrow> fld_capacity (set_capacity v x) = v mod 64"
proof -
  assume a: "length x = 16"
  have "take_bit 6 (drop_bit 54 ((hi x AND NOT (push_bit 54 (mask 6))) OR
          push_bit 54 (take_bit 6 (of_nat v)))) = (take_bit 6 (of_nat v) :: 64 word)"
    by (rule bit_eqI) (auto simp: bit_simps)
  then show ?thesis
    using a by (simp add: fld_capacity_def hi_set unat_take_bit_of_nat)
qed

lemma space_left_set_space_left [simp]:
  "length x = 16 \<Longrightarrow> space_left (set_space_left v x) = v mod 16"
proof -
  assume a: "length x = 16"
  have "take_bit 4 (drop_bit 56 ((hi x AND NOT (push_bit 56 (mask 4))) OR
          push_bit 56 (take_bit 4 (of_nat v)))) = (take_bit 4 (of_nat v) :: 64 word)"
    by (rule bit_eqI) (auto simp: bit_simps)
  then show ?thesis
    using a by (simp add: space_left_hi hi_set unat_take_bit_of_nat)
qed


subsection \<open>Integer logarithm\<close>

lemma bit_length_pos: "0 < n \<Longrightarrow> 0 < bit_length n"
  by (subst bit_length.simps) simp

lemma bit_length_bounds: "0 < n \<Longrightarrow> 2 ^ (bit_length n - 1) \<le> n \<and> n < 2 ^ bit_length n"
proof (induction n rule: bit_length.induct)
  case (1 n)
  show ?case
  proof (cases "n div 2 = 0")
    case True
    with "1.prems" have "n = Suc 0" by presburger
    moreover have "bit_length (Suc 0) = Suc 0"
      by (simp add: bit_length.simps [of "Suc 0"] bit_length.simps [of 0])
    ultimately show ?thesis by simp
  next
    case False
    then have pos: "0 < n div 2" by simp
    with 1 have ih: "2 ^ (bit_length (n div 2) - 1) \<le> n div 2" "n div 2 < 2 ^ bit_length (n div 2)"
      by simp_all
    have bl: "bit_length n = Suc (bit_length (n div 2))"
      using "1.prems" by (subst bit_length.simps) simp
    have "0 < bit_length (n div 2)" using pos by (rule bit_length_pos)
    then obtain j where j: "bit_length (n div 2) = Suc j" by (cases "bit_length (n div 2)") simp_all
    from ih show ?thesis
      unfolding bl j by simp presburger
  qed
qed

lemma bit_length_le: "n < 2 ^ m \<Longrightarrow> bit_length n \<le> m"
proof (induction n arbitrary: m rule: bit_length.induct)
  case (1 n)
  show ?case
  proof (cases "n = 0")
    case True
    then show ?thesis by (simp add: bit_length.simps)
  next
    case False
    with "1.prems" obtain m' where m': "m = Suc m'"
      by (cases m) simp_all
    with "1.prems" have "n div 2 < 2 ^ m'" by simp
    with 1 False have "bit_length (n div 2) \<le> m'" by simp
    then show ?thesis
      using False m' by (subst bit_length.simps) simp
  qed
qed

lemma ilog2_eq: "0 < n \<Longrightarrow> n < 2 ^ 32 \<Longrightarrow> ilog2 n = Inr (bit_length n - 1)"
proof -
  assume n: "0 < n" "n < 2 ^ 32"
  then have u: "unat (of_nat n :: 32 word) = n"
    by (simp add: unat_of_nat)
  with n have nz: "(of_nat n :: 32 word) \<noteq> 0"
    by (metis less_numeral_extra(3) unat_0)
  have "bit_length n \<le> 32" using n by (intro bit_length_le)
  with u nz show ?thesis
    by (simp add: ilog2_def builtin_clz_def bnd_def)
qed

subsection \<open>Memory primitives\<close>

lemma bnd_Inr [simp]: "bnd (Inr v) f = f v"
  by (simp add: bnd_def)

lemma bnd_Inl [simp]: "bnd (Inl e) f = Inl e"
  by (simp add: bnd_def)

lemma length_overwrite [simp]:
  "i + length cs \<le> length bs \<Longrightarrow> length (overwrite bs i cs) = length bs"
  by (simp add: overwrite_def)

lemma nth_overwrite:
  "i + length cs \<le> length bs \<Longrightarrow> j < length bs \<Longrightarrow>
   overwrite bs i cs ! j = (if i \<le> j \<and> j < i + length cs then cs ! (j - i) else bs ! j)"
  by (auto simp: overwrite_def nth_append)

lemma take_drop_overwrite [simp]:
  "i + length cs \<le> length bs \<Longrightarrow> take (length cs) (drop i (overwrite bs i cs)) = cs"
  by (simp add: overwrite_def)

lemma take_overwrite [simp]:
  "n \<le> i \<Longrightarrow> i \<le> length bs \<Longrightarrow> take n (overwrite bs i cs) = take n bs"
  by (simp add: overwrite_def)

lemma load_Blk:
  "blocks h p = Some bs \<Longrightarrow> i + n \<le> length bs \<Longrightarrow> load h x (Blk p i) n = Inr (take n (drop i bs))"
  by (simp add: load_def)

lemma store_Blk:
  "blocks h p = Some bs \<Longrightarrow> i + length cs \<le> length bs \<Longrightarrow>
   store h x (Blk p i) cs = Inr (x, h\<lparr>blocks := (blocks h)(p \<mapsto> overwrite bs i cs)\<rparr>)"
  by (simp add: store_def)

lemma load_Own: "i + n \<le> 16 \<Longrightarrow> load h x (Own i) n = Inr (take n (drop i x))"
  by (simp add: load_def)

lemma store_Own: "i + length cs \<le> 16 \<Longrightarrow> store h x (Own i) cs = Inr (overwrite x i cs, h)"
  by (simp add: store_def)

lemma load_int_eq:
  "blocks h p = Some bs \<Longrightarrow> 4 \<le> length bs \<Longrightarrow> load_int h p = Inr (le_word (take 4 bs))"
  by (simp add: load_int_def load_Blk)

lemma store_int_eq:
  "blocks h p = Some bs \<Longrightarrow> 4 \<le> length bs \<Longrightarrow>
   store_int h p v = Inr (h\<lparr>blocks := (blocks h)(p \<mapsto> overwrite bs 0 (le_bytes 4 v))\<rparr>)"
  by (simp add: store_int_def store_Blk)

lemma le_word_take4_overwrite [simp]:
  "4 \<le> length bs \<Longrightarrow> le_word (take 4 (overwrite bs 0 (le_bytes 4 v))) = (v :: 32 word)"
  by (simp add: overwrite_def le_word_le_bytes)

lemma take_strlen:
  "take (Suc (strlen p)) (p @ [0]) = takeWhile (\<lambda>b. b \<noteq> 0) p @ [0]"
  unfolding strlen_def by (induction p) auto

lemma strlen_le: "strlen p \<le> length p"
  by (simp add: strlen_def length_takeWhile_le)



lemma strlen_c_str: "strlen p = length (c_str p)"
  by (simp add: strlen_def c_str_def)

lemma take_strlen': "take (Suc (length (c_str p))) (p @ [0]) = c_str p @ [0]"
  using take_strlen [of p] by (simp only: c_str_def strlen_def)

lemma sub64_simple: "b \<le> a \<Longrightarrow> a < 2 ^ 64 \<Longrightarrow> sub64 a b = a - b"
proof -
  assume a: "b \<le> a" "a < 2 ^ 64"
  have 1: "b mod 2 ^ 64 = b" using a by simp
  have 2: "a + 2 ^ 64 - b = (a - b) + 2 ^ 64" using a by linarith
  have 3: "(a - b) mod 2 ^ 64 = a - b" using a by (intro mod_less) linarith
  show ?thesis unfolding sub64_def 1 2 mod_add_self2 3 ..
qed

lemma le_word_replicate_0 [simp]: "le_word (replicate n 0) = 0"
  by (induction n) (simp_all add: le_word_def)

lemma length_xs_literal_empty [simp]: "length xs_literal_empty = 16"
  by (simp add: xs_literal_empty_def)

lemma xs_literal_empty_15: "xs_literal_empty ! 15 = 15"
  by (simp add: xs_literal_empty_def nth_append)

lemma is_ptr_xs_literal_empty [simp]: "\<not> is_ptr xs_literal_empty"
  by (simp add: is_ptr_def xs_literal_empty_15)

lemma is_large_string_xs_literal_empty [simp]: "\<not> is_large_string xs_literal_empty"
  by (simp add: is_large_string_def xs_literal_empty_15)

lemma space_left_xs_literal_empty [simp]: "space_left xs_literal_empty = 15"
  by (simp add: space_left_def xs_literal_empty_15)

lemma fld_ptr_xs_literal_empty [simp]: "fld_ptr xs_literal_empty = 0"
  by (simp add: fld_ptr_def xs_literal_empty_def)

lemma xs_new_inline:
  "strlen p \<le> 15 \<Longrightarrow> xs_new h p = Inr (inline_of (c_str p), h)"
  by (simp add: xs_new_def strlen_c_str take_strlen' store_Own sub64_simple inline_of_def
      del: take_append)

lemma inline_raw_15:
  "length c \<le> 15 \<Longrightarrow>
   overwrite xs_literal_empty 0 (c @ [0]) ! 15 = (if length c = 15 then 0 else 15)"
  by (simp add: nth_overwrite xs_literal_empty_15 nth_append)

lemma length_inline_of [simp]: "length c \<le> 15 \<Longrightarrow> length (inline_of c) = 16"
  by (simp add: inline_of_def)

lemma is_ptr_inline_of [simp]: "length c \<le> 15 \<Longrightarrow> \<not> is_ptr (inline_of c)"
  unfolding inline_of_def by (simp, simp add: is_ptr_def inline_raw_15)

lemma is_large_string_inline_of [simp]: "length c \<le> 15 \<Longrightarrow> \<not> is_large_string (inline_of c)"
  unfolding inline_of_def by (simp, simp add: is_large_string_def inline_raw_15)

lemma space_left_inline_of [simp]: "length c \<le> 15 \<Longrightarrow> space_left (inline_of c) = 15 - length c"
  unfolding inline_of_def by simp

lemma xs_size_inline_of [simp]: "length c \<le> 15 \<Longrightarrow> xs_size (inline_of c) = length c"
  by (simp add: xs_size_def xs_is_ptr_def)

lemma xs_capacity_inline_of [simp]: "length c \<le> 15 \<Longrightarrow> xs_capacity (inline_of c) = 15"
  by (simp add: xs_capacity_def xs_is_ptr_def)

lemma take_inline_of: "length c \<le> 15 \<Longrightarrow> take (length c) (inline_of c) = c"
  by (simp add: inline_of_def set_space_left_def overwrite_def)

lemma nth_inline_of_term: "length c \<le> 15 \<Longrightarrow> inline_of c ! length c = 0"
  apply (cases "length c = 15")
   apply (simp add: inline_of_def set_space_left_def inline_raw_15)
  apply (simp add: inline_of_def set_space_left_def nth_overwrite nth_append)
  done


subsection \<open>Construction on the heap\<close>

lemma length_fresh_block [simp]: "length (fresh_block h n) = n"
  by (simp add: fresh_block_def)

lemma malloc_eq:
  "malloc h n = (brk h, h\<lparr>blocks := (blocks h)(brk h \<mapsto> fresh_block h n), brk := brk h + n + 16\<rparr>)"
  by (simp add: malloc_def)

lemma heap_hdr_simps [simp]:
  "length (heap_hdr n k) = 16"
  "is_ptr (heap_hdr n k)"
  "\<not> is_large_string (heap_hdr n k)"
  "fld_size (heap_hdr n k) = n mod 2 ^ 54"
  "fld_capacity (heap_hdr n k) = k mod 64"
  "fld_ptr (heap_hdr n k) = 0"
  by (simp_all add: heap_hdr_def)

lemma xs_allocate_data_medium:
  "len < 256 \<Longrightarrow>
   xs_allocate_data h x len False =
     Inr (set_ptr (brk h) x,
          h\<lparr>blocks := (blocks h)(brk h \<mapsto> fresh_block h (2 ^ fld_capacity x)),
            brk := brk h + 2 ^ fld_capacity x + 16\<rparr>)"
  by (simp add: xs_allocate_data_def LARGE_STRING_LEN_def malloc_eq)

lemma xs_allocate_data_large:
  "256 \<le> len \<Longrightarrow> length x = 16 \<Longrightarrow> fld_capacity x < 31 \<Longrightarrow> brk h < 2 ^ 64 \<Longrightarrow>
   xs_allocate_data h x len False =
     Inr (set_ptr (brk h) (set_is_large_string x),
          h\<lparr>blocks := (blocks h)(brk h \<mapsto>
                 overwrite (fresh_block h (2 ^ fld_capacity x + 4)) 0 (le_bytes 4 (1 :: 32 word))),
            brk := brk h + (2 ^ fld_capacity x + 4) + 16\<rparr>)"
  by (simp add: xs_allocate_data_def LARGE_STRING_LEN_def malloc_eq Let_def xs_set_ref_count_def
      store_int_eq)

lemma bit_length_ge: "2 ^ j \<le> n \<Longrightarrow> j < bit_length n"
proof -
  assume a: "2 ^ j \<le> n"
  then have "0 < n" by (metis gr0I not_less_eq_eq power_eq_0_iff le_zero_eq zero_neq_numeral less_eq_nat.simps(1) nat_less_le zero_less_power zero_less_numeral)
  then have "n < 2 ^ bit_length n" using bit_length_bounds by blast
  with a have "(2::nat) ^ j < 2 ^ bit_length n" by linarith
  then show ?thesis by simp
qed

lemma xs_new_medium:
  assumes "16 \<le> strlen p" "strlen p < 256" "brk h < 2 ^ 64"
  defines "k \<equiv> bit_length (strlen p + 1)"
  shows "xs_new h p =
     Inr (set_ptr (brk h) (heap_hdr (strlen p) k),
          h\<lparr>blocks := (blocks h)(brk h \<mapsto> overwrite (fresh_block h (2 ^ k)) 0 (c_str p @ [0])),
            brk := brk h + 2 ^ k + 16\<rparr>)"
proof -
  have "ilog2 (strlen p + 1) = Inr (k - 1)"
    unfolding k_def using assms(2) by (intro ilog2_eq) simp_all
  then have il: "ilog2 (Suc (length (c_str p))) = Inr (k - 1)"
    by (simp add: strlen_c_str)
  have kpos: "0 < k" unfolding k_def by (intro bit_length_pos) simp
  have "strlen p + 1 < 2 ^ 9" using assms(2) by simp
  then have k9: "k \<le> 9" unfolding k_def by (rule bit_length_le)
  have fit: "strlen p + 1 < 2 ^ k"
    unfolding k_def using bit_length_bounds [of "strlen p + 1"] by simp
  have k64: "k mod 64 = k" using k9 by simp
  have sk: "Suc (k - 1) = k" using kpos by simp
  have sz: "strlen p mod 2 ^ 54 = strlen p" using assms(2) by simp
  show ?thesis
    using assms(1,2,3) kpos fit
    by (simp add: xs_new_def il sk Let_def heap_hdr_def [symmetric] k64 sz xs_allocate_data_medium
        xs_data_def xs_is_ptr_def xs_is_large_string_def store_Blk strlen_c_str take_strlen'
        del: take_append)
qed


lemma xs_new_large:
  assumes "256 \<le> strlen p" "strlen p + 1 < 2 ^ 30" "brk h < 2 ^ 64"
  defines "k \<equiv> bit_length (strlen p + 1)"
  shows "xs_new h p =
     Inr (set_ptr (brk h) (set_is_large_string (heap_hdr (strlen p) k)),
          h\<lparr>blocks := (blocks h)(brk h \<mapsto>
                 overwrite (overwrite (fresh_block h (2 ^ k + 4)) 0 (le_bytes 4 (1 :: 32 word))) 4
                   (c_str p @ [0])),
            brk := brk h + (2 ^ k + 4) + 16\<rparr>)"
proof -
  have "ilog2 (strlen p + 1) = Inr (k - 1)"
    unfolding k_def using assms(2) by (intro ilog2_eq) simp_all
  then have il: "ilog2 (Suc (length (c_str p))) = Inr (k - 1)"
    by (simp add: strlen_c_str)
  have kpos: "0 < k" unfolding k_def by (intro bit_length_pos) simp
  have k30: "k \<le> 30" unfolding k_def using assms(2) by (rule bit_length_le)
  have fit: "strlen p + 1 < 2 ^ k"
    unfolding k_def using bit_length_bounds [of "strlen p + 1"] by simp
  have k64: "k mod 64 = k" using k30 by simp
  have sk: "Suc (k - 1) = k" using kpos by simp
  have "strlen p < 2 ^ 30" using assms(2) by simp
  also have "(2::nat) ^ 30 < 2 ^ 54" by simp
  finally have "strlen p mod 2 ^ 54 = strlen p" by simp
  then have sz: "length (c_str p) mod 18014398509481984 = length (c_str p)"
    by (simp add: strlen_c_str)
  have k31: "k < 31" using k30 by simp
  show ?thesis
    using assms(1,3) kpos fit k31
    by (simp add: xs_new_def il sk Let_def heap_hdr_def [symmetric] k64 sz xs_allocate_data_large
        xs_data_def xs_is_ptr_def xs_is_large_string_def store_Blk strlen_c_str take_strlen'
        del: take_append)
qed

subsection \<open>Variants of constructed values\<close>

lemma variant_of_inline_of [simp]: "length c \<le> 15 \<Longrightarrow> variant_of (inline_of c) = Inline"
  by (simp add: variant_of_def xs_is_ptr_def)


lemma xs_new_large_variant:
  assumes "256 \<le> strlen p" "strlen p + 1 < 2 ^ 30" "brk h < 2 ^ 64"
  shows "\<exists>x h'. xs_new h p = Inr (x, h') \<and> variant_of x = Shared_heap \<and>
           xs_get_ref_count h' x = Inr 1"
proof -
  have "strlen p + 1 < 2 ^ bit_length (strlen p + 1)"
    using bit_length_bounds [of "strlen p + 1"] by simp
  then have "length (c_str p) + 1 < 2 ^ bit_length (Suc (strlen p))"
    by (simp add: strlen_c_str)
  then show ?thesis
    using xs_new_large [OF assms] assms(3)
    by (simp add: variant_of_def xs_is_ptr_def xs_is_large_string_def xs_get_ref_count_def
        load_int_eq)
qed

subsection \<open>Capacity exponents\<close>

lemma min_exponent_least:
  "min_exponent n k \<longleftrightarrow> n \<le> 2 ^ k - 1 \<and> (\<forall>j. n \<le> 2 ^ j - 1 \<longrightarrow> k \<le> j)"
proof -
  have mono: "j \<le> i \<Longrightarrow> (2::nat) ^ j - 1 \<le> 2 ^ i - 1" for i j
    by (simp add: diff_le_mono)
  show ?thesis
  proof (cases k)
    case 0
    then show ?thesis by (simp add: min_exponent_def)
  next
    case (Suc k')
    show ?thesis
    proof
      assume m: "min_exponent n k"
      then have lo: "2 ^ k' - 1 < n" by (simp add: min_exponent_def Suc)
      have "k \<le> j" if "n \<le> 2 ^ j - 1" for j
      proof (rule ccontr)
        assume "\<not> k \<le> j"
        then have "j \<le> k'" using Suc by simp
        from mono [OF this] that lo show False by simp
      qed
      with m show "n \<le> 2 ^ k - 1 \<and> (\<forall>j. n \<le> 2 ^ j - 1 \<longrightarrow> k \<le> j)"
        by (simp add: min_exponent_def)
    next
      assume a: "n \<le> 2 ^ k - 1 \<and> (\<forall>j. n \<le> 2 ^ j - 1 \<longrightarrow> k \<le> j)"
      then have "\<not> n \<le> 2 ^ k' - 1" using Suc by (metis Suc_n_not_le_n)
      with a show "min_exponent n k" by (simp add: min_exponent_def Suc)
    qed
  qed
qed

lemma min_exponent_bit_length: "0 < n \<Longrightarrow> min_exponent n (bit_length n)"
  using bit_length_bounds [of n] bit_length_pos [of n]
  by (auto simp: min_exponent_def)

lemma xs_capacity_heap: "is_ptr x \<Longrightarrow> xs_capacity x = 2 ^ fld_capacity x - 1"
  by (simp add: xs_capacity_def xs_is_ptr_def)

lemma xs_new_heap_capacity:
  assumes "16 \<le> strlen p" "strlen p + 1 < 2 ^ 30" "brk h < 2 ^ 64"
  shows "\<exists>x h'. xs_new h p = Inr (x, h') \<and> is_ptr x \<and> fld_capacity x = bit_length (strlen p + 1)"
proof -
  have "bit_length (strlen p + 1) \<le> 30"
    using assms(2) by (rule bit_length_le)
  then have k: "bit_length (Suc (strlen p)) mod 64 = bit_length (Suc (strlen p))"
    by simp
  show ?thesis
  proof (cases "strlen p < 256")
    case True
    then show ?thesis
      using xs_new_medium [OF assms(1) True assms(3)] k by simp
  next
    case False
    then have "256 \<le> strlen p" by simp
    then show ?thesis
      using xs_new_large [OF _ assms(2,3)] k by simp
  qed
qed

subsection \<open>Growth\<close>

lemma realloc_null: "realloc h 0 n = Inr (malloc h n)"
  by (simp add: realloc_def)

lemma realloc_invalid: "p \<noteq> 0 \<Longrightarrow> blocks h p = None \<Longrightarrow> realloc h p n = Inl InvalidPointer"
  by (simp add: realloc_def)

lemma xs_grow_unfold:
  assumes "length x = 16" "xs_capacity x < len" "len < 2 ^ 32"
  shows "xs_grow h x len =
     xs_allocate_data h (set_capacity (bit_length len) (set_is_ptr x)) len True"
proof -
  have "0 < len" using assms(2) by simp
  then have il: "ilog2 len = Inr (bit_length len - 1)" and pos: "0 < bit_length len"
    using assms(3) by (simp_all add: ilog2_eq bit_length_pos)
  then show ?thesis
    using assms(1,2) by (simp add: xs_grow_def Let_def xs_is_ptr_def)
qed

lemma xs_allocate_data_capacity:
  "length x = 16 \<Longrightarrow> xs_allocate_data h x len r = Inr (x', h') \<Longrightarrow>
   fld_capacity x' = fld_capacity x \<and> is_ptr x' = is_ptr x \<and> fld_size x' = fld_size x"
  by (auto simp: xs_allocate_data_def bnd_def Let_def split: if_splits sum.splits prod.splits)

lemma xs_grow_capacity:
  assumes "length x = 16" "xs_capacity x < len" "len < 2 ^ 32" "xs_grow h x len = Inr (x', h')"
  shows "fld_capacity x' = bit_length len" "is_ptr x'" "fld_size x' = fld_size x"
proof -
  have "bit_length len \<le> 32" using assms(3) by (rule bit_length_le)
  then have "bit_length len mod 64 = bit_length len" by simp
  with xs_allocate_data_capacity [OF _ assms(4) [unfolded xs_grow_unfold [OF assms(1-3)]]] assms(1)
  show "fld_capacity x' = bit_length len" "is_ptr x'" "fld_size x' = fld_size x"
    by simp_all
qed

lemma xs_grow_empty_medium:
  assumes "15 < len" "len < 256"
  shows "xs_grow h xs_literal_empty len =
     Inr (set_ptr (brk h) (set_capacity (bit_length len) (set_is_ptr xs_literal_empty)),
          h\<lparr>blocks := (blocks h)(brk h \<mapsto> fresh_block h (2 ^ bit_length len)),
            brk := brk h + 2 ^ bit_length len + 16\<rparr>)"
proof -
  have "len < 2 ^ 9" using assms(2) by simp
  then have "bit_length len \<le> 9" by (rule bit_length_le)
  then have k: "bit_length len mod 64 = bit_length len" by simp
  have "xs_grow h xs_literal_empty len =
     xs_allocate_data h (set_capacity (bit_length len) (set_is_ptr xs_literal_empty)) len True"
    using assms by (intro xs_grow_unfold) (simp_all add: xs_capacity_def xs_is_ptr_def)
  then show ?thesis
    using assms(2) by (simp add: xs_allocate_data_def LARGE_STRING_LEN_def realloc_null malloc_eq k)
qed

lemma le_word_Cons_0: "le_word (b # bs) = (0 :: 64 word) \<Longrightarrow> b = 0"
proof (rule bit_eqI)
  fix n
  assume z: "le_word (b # bs) = (0 :: 64 word)" and "possible_bit TYPE(byte) n"
  then have n: "n < 8" by (simp add: possible_bit_word)
  then have "bit (le_word (b # bs) :: 64 word) n = bit b n"
    by (simp add: bit_le_word)
  with z show "bit b n = bit (0 :: byte) n" by simp
qed

lemma xs_grow_inline_invalid:
  assumes "length x = 16" "\<not> is_ptr x" "15 < len" "len < 2 ^ 30"
    and "fld_ptr x \<noteq> 0" "blocks h (fld_ptr x) = None"
  shows "xs_grow h x len = Inl InvalidPointer"
proof -
  have "bit_length len \<le> 30" using assms(4) by (rule bit_length_le)
  then have k: "bit_length len mod 64 = bit_length len" "\<not> 31 \<le> bit_length len" by simp_all
  have "len < 2 ^ 32" using assms(4) by (rule less_trans) simp
  then have "xs_grow h x len =
     xs_allocate_data h (set_capacity (bit_length len) (set_is_ptr x)) len True"
    using assms(1,2,3) by (intro xs_grow_unfold) (simp_all add: xs_capacity_def xs_is_ptr_def)
  then show ?thesis
    using assms(1,5,6) k by (simp add: xs_allocate_data_def Let_def realloc_invalid)
qed

lemma bit_length_32: "bit_length 32 = 6"
  by (simp add: bit_length.simps)

lemma bit_length_40: "bit_length 40 = 6"
  by (simp add: bit_length.simps)

lemma fld_size_inline_of_short: "length c \<le> 8 \<Longrightarrow> fld_size (inline_of c) = 0"
proof -
  assume c: "length c \<le> 8"
  have z: "inline_of c ! i = 0" if "8 < i" "i < 15" for i
    using that c
    by (simp add: inline_of_def set_space_left_def nth_overwrite xs_literal_empty_def nth_append)
  have z8: "inline_of c ! 8 = 0"
    using c
    by (simp add: inline_of_def set_space_left_def nth_overwrite xs_literal_empty_def nth_append)
  have "take_bit 54 (hi (inline_of c)) = 0"
  proof (rule bit_eqI)
    fix n
    show "bit (take_bit 54 (hi (inline_of c))) n = bit (0 :: 64 word) n"
    proof (cases "n < 54")
      case True
      then have "n div 8 \<le> 6" by simp
      then have "inline_of c ! (8 + n div 8) = 0"
        using z [of "8 + n div 8"] z8 by (cases "n div 8 = 0") simp_all
      then show ?thesis
        using c by (simp add: bit_simps bit_hi)
    next
      case False
      then show ?thesis by (simp add: bit_simps)
    qed
  qed
  then show ?thesis by (simp add: fld_size_def)
qed

subsection \<open>Reference counts\<close>

lemma load_int_count: "count_block h p c \<Longrightarrow> load_int h p = Inr c"
  by (auto simp: count_block_def load_int_eq)

lemma store_int_count: "count_block h p c \<Longrightarrow> store_int h p c' = Inr (set_count h p c')"
  by (auto simp: count_block_def store_int_eq set_count_def)

lemma count_block_set_count [simp]: "count_block h p c \<Longrightarrow> count_block (set_count h p c') p c'"
  by (auto simp: count_block_def set_count_def)

lemma xs_get_ref_count_large:
  "is_large_string x \<Longrightarrow> count_block h (fld_ptr x) c \<Longrightarrow> xs_get_ref_count h x = Inr (sint c)"
  by (simp add: xs_get_ref_count_def xs_is_large_string_def load_int_count)

lemma xs_inc_ref_count_large:
  "is_large_string x \<Longrightarrow> count_block h (fld_ptr x) c \<Longrightarrow> c \<noteq> 0x7FFFFFFF \<Longrightarrow>
   xs_inc_ref_count h x = Inr (set_count h (fld_ptr x) (c + 1))"
  by (simp add: xs_inc_ref_count_def xs_is_large_string_def load_int_count store_int_count)

lemma xs_dec_ref_count_large:
  "is_large_string x \<Longrightarrow> count_block h (fld_ptr x) c \<Longrightarrow> c \<noteq> 0x80000000 \<Longrightarrow>
   xs_dec_ref_count h x = Inr (sint (c - 1), set_count h (fld_ptr x) (c - 1))"
  by (simp add: xs_dec_ref_count_def xs_is_large_string_def load_int_count store_int_count)

lemma xs_copy_inline: "\<not> is_ptr x \<Longrightarrow> xs_copy h x = Inr (x, h)"
  by (simp add: xs_copy_def xs_is_ptr_def)

lemma xs_copy_large:
  "is_ptr x \<Longrightarrow> is_large_string x \<Longrightarrow> count_block h (fld_ptr x) c \<Longrightarrow> c \<noteq> 0x7FFFFFFF \<Longrightarrow>
   xs_copy h x = Inr (x, set_count h (fld_ptr x) (c + 1))"
  by (simp add: xs_copy_def xs_is_ptr_def xs_is_large_string_def xs_inc_ref_count_large)

lemma xs_free_inline: "\<not> is_ptr x \<Longrightarrow> xs_free h x = Inr (xs_literal_empty, h)"
  by (simp add: xs_free_def xs_is_ptr_def xs_newempty_def)

lemma xs_free_medium:
  "is_ptr x \<Longrightarrow> \<not> is_large_string x \<Longrightarrow> blocks h (fld_ptr x) \<noteq> None \<Longrightarrow> fld_ptr x \<noteq> 0 \<Longrightarrow>
   xs_free h x = Inr (xs_literal_empty, h\<lparr>blocks := (blocks h)(fld_ptr x := None)\<rparr>)"
  by (simp add: xs_free_def xs_is_ptr_def xs_newempty_def xs_dec_ref_count_def
      xs_is_large_string_def free_def)

lemma sint_int_min: "sint c = - (2 ^ 31) \<Longrightarrow> c = (0x80000000 :: 32 word)"
proof -
  assume "sint c = - (2 ^ 31)"
  then have "word_of_int (sint c) = (word_of_int (- (2 ^ 31)) :: 32 word)" by simp
  then show ?thesis by simp
qed

lemma sint_int_max: "sint c = 2 ^ 31 - 1 \<Longrightarrow> c = (0x7FFFFFFF :: 32 word)"
proof -
  assume "sint c = 2 ^ 31 - 1"
  then have "word_of_int (sint c) = (word_of_int (2 ^ 31 - 1) :: 32 word)" by simp
  then show ?thesis by simp
qed

lemma sint_dec: "c \<noteq> 0x80000000 \<Longrightarrow> sint (c - 1) = sint c - 1" for c :: "32 word"
proof -
  assume "c \<noteq> 0x80000000"
  then have "sint c \<noteq> - (2 ^ 31)" using sint_int_min by blast
  moreover have "- (2 ^ 31) \<le> sint c" "sint c < 2 ^ 31"
    using sint_ge [of c] sint_lt [of c] by simp_all
  ultimately have "signed_take_bit 31 (sint c - 1) = sint c - 1"
    by (intro signed_take_bit_int_eq_self) simp_all
  then show ?thesis by (simp add: sint_word_diff)
qed

lemma sint_inc: "c \<noteq> 0x7FFFFFFF \<Longrightarrow> sint (c + 1) = sint c + 1" for c :: "32 word"
proof -
  assume "c \<noteq> 0x7FFFFFFF"
  then have "sint c \<noteq> 2 ^ 31 - 1" using sint_int_max by blast
  moreover have "- (2 ^ 31) \<le> sint c" "sint c < 2 ^ 31"
    using sint_ge [of c] sint_lt [of c] by simp_all
  ultimately have "signed_take_bit 31 (sint c + 1) = sint c + 1"
    by (intro signed_take_bit_int_eq_self) simp_all
  then show ?thesis by (simp add: sint_word_add)
qed

lemma xs_free_large_shared:
  "is_ptr x \<Longrightarrow> is_large_string x \<Longrightarrow> count_block h (fld_ptr x) c \<Longrightarrow> 1 < sint c \<Longrightarrow>
   xs_free h x = Inr (xs_literal_empty, set_count h (fld_ptr x) (c - 1))"
proof -
  assume a: "is_ptr x" "is_large_string x" "count_block h (fld_ptr x) c" "1 < sint c"
  then have "c \<noteq> 0x80000000" by auto
  with a show ?thesis
    by (simp add: xs_free_def xs_is_ptr_def xs_newempty_def xs_dec_ref_count_large sint_dec)
qed

lemma xs_free_large_last:
  "is_ptr x \<Longrightarrow> is_large_string x \<Longrightarrow> count_block h (fld_ptr x) c \<Longrightarrow> sint c \<le> 1 \<Longrightarrow>
   c \<noteq> 0x80000000 \<Longrightarrow> fld_ptr x \<noteq> 0 \<Longrightarrow>
   xs_free h x = Inr (xs_literal_empty, h\<lparr>blocks := (blocks h)(fld_ptr x := None)\<rparr>)"
  by (simp add: xs_free_def xs_is_ptr_def xs_newempty_def xs_dec_ref_count_large sint_dec
      free_def set_count_def)

subsection \<open>Copies and releases of a shared value\<close>

lemma count_block_of_get:
  assumes "is_large_string x" "xs_get_ref_count h x = Inr k"
  shows "\<exists>c. count_block h (fld_ptr x) c \<and> sint c = k"
  using assms
  by (auto simp: xs_get_ref_count_def xs_is_large_string_def load_int_def load_def bnd_def
      count_block_def split: option.splits if_splits)

lemma blocks_set_count [simp]:
  "blocks (set_count h p c) p = Some (overwrite (the (blocks h p)) 0 (le_bytes 4 c))"
  by (simp add: set_count_def)

lemma xs_copy_times_large:
  assumes "is_ptr v" "is_large_string v"
  shows "count_block h (fld_ptr v) c \<Longrightarrow> 1 \<le> sint c \<Longrightarrow> sint c + int m < 2 ^ 31 \<Longrightarrow>
    \<exists>h1 c1. xs_copy_times m h v = Inr (replicate m v, h1) \<and>
       count_block h1 (fld_ptr v) c1 \<and> sint c1 = sint c + int m"
proof (induction m arbitrary: h c)
  case 0
  then show ?case by auto
next
  case (Suc m)
  have "sint c \<noteq> 2 ^ 31 - 1" using Suc.prems by simp
  then have nm: "c \<noteq> 0x7FFFFFFF" by auto
  let ?h = "set_count h (fld_ptr v) (c + 1)"
  have cp: "xs_copy h v = Inr (v, ?h)"
    using assms Suc.prems(1) nm by (rule xs_copy_large)
  have cb: "count_block ?h (fld_ptr v) (c + 1)"
    using Suc.prems(1) by simp
  have s: "sint (c + 1) = sint c + 1" using nm by (rule sint_inc)
  obtain h1 c1 where "xs_copy_times m ?h v = Inr (replicate m v, h1)"
    "count_block h1 (fld_ptr v) c1" "sint c1 = sint (c + 1) + int m"
    using Suc.IH [OF cb] Suc.prems s by auto
  then show ?case
    using cp s by auto
qed

lemma xs_free_all_large:
  assumes "is_ptr v" "is_large_string v"
  shows "count_block h (fld_ptr v) c \<Longrightarrow> int m < sint c \<Longrightarrow>
    \<exists>h2 c2. xs_free_all h (replicate m v) = Inr h2 \<and>
       count_block h2 (fld_ptr v) c2 \<and> sint c2 = sint c - int m"
proof (induction m arbitrary: h c)
  case 0
  then show ?case by auto
next
  case (Suc m)
  then have gt: "1 < sint c" by simp
  then have nm: "c \<noteq> 0x80000000" by auto
  let ?h = "set_count h (fld_ptr v) (c - 1)"
  have fr: "xs_free h v = Inr (xs_literal_empty, ?h)"
    using assms Suc.prems(1) gt by (rule xs_free_large_shared)
  have cb: "count_block ?h (fld_ptr v) (c - 1)"
    using Suc.prems(1) by simp
  have s: "sint (c - 1) = sint c - 1" using nm by (rule sint_dec)
  obtain h2 c2 where "xs_free_all ?h (replicate m v) = Inr h2"
    "count_block h2 (fld_ptr v) c2" "sint c2 = sint (c - 1) - int m"
    using Suc.IH [OF cb] Suc.prems s by auto
  then show ?case
    using fr s by auto
qed

lemma variant_of_Shared_heap: "variant_of x = Shared_heap \<longleftrightarrow> is_ptr x \<and> is_large_string x"
  by (simp add: variant_of_def xs_is_ptr_def xs_is_large_string_def)

lemma variant_of_Exclusive_heap:
  "variant_of x = Exclusive_heap \<longleftrightarrow> is_ptr x \<and> \<not> is_large_string x"
  by (simp add: variant_of_def xs_is_ptr_def xs_is_large_string_def)

lemma variant_of_Inline: "variant_of x = Inline \<longleftrightarrow> \<not> is_ptr x"
  by (simp add: variant_of_def xs_is_ptr_def xs_is_large_string_def)

lemma replicate_of_set:
  "length rel = m \<Longrightarrow> set rel \<subseteq> {v} \<Longrightarrow> rel = replicate m v"
  by (induction rel arbitrary: m) auto

subsection \<open>The bitmap of the cut set\<close>

lemma byte_index: "unat b div 8 < 32" "unat b mod 8 < 8" for b :: byte
proof -
  have "unat b < 256" using unsigned_less [of b] by simp
  then show "unat b div 8 < 32" by simp
  show "unat b mod 8 < 8" by simp
qed

lemma byte_index_eq:
  "unat b div 8 = unat c div 8 \<Longrightarrow> unat b mod 8 = unat c mod 8 \<Longrightarrow> b = c" for b c :: byte
proof -
  assume "unat b div 8 = unat c div 8" "unat b mod 8 = unat c mod 8"
  then have "unat b = unat c" by (metis div_mult_mod_eq)
  then show ?thesis by (simp add: word_unat_eq_iff)
qed

lemma and_push_bit_1: "w AND 2 ^ n \<noteq> 0 \<longleftrightarrow> bit w n" for w :: byte
  using and_exp_eq_0_iff_not_bit [of w n] by blast

lemma check_bit_bit: "check_bit msk b \<longleftrightarrow> bit (msk ! (unat b div 8)) (unat b mod 8)"
  by (simp add: check_bit_def and_push_bit_1)

lemma length_set_bit_mask [simp]: "length (set_bit_mask c msk) = length msk"
  by (simp add: set_bit_mask_def)

lemma check_bit_set_bit_mask:
  "length msk = 32 \<Longrightarrow> check_bit (set_bit_mask c msk) b \<longleftrightarrow> b = c \<or> check_bit msk b"
  using byte_index [of b] byte_index [of c]
  by (auto simp: check_bit_bit set_bit_mask_def nth_list_update bit_simps push_bit_of_1
      dest: byte_index_eq)

lemma length_fold_set_bit_mask [simp]: "length (fold set_bit_mask bs msk) = length msk"
  by (induction bs arbitrary: msk) simp_all

lemma check_bit_fold:
  "length msk = 32 \<Longrightarrow>
   check_bit (fold set_bit_mask bs msk) b \<longleftrightarrow> b \<in> set bs \<or> check_bit msk b"
  by (induction bs arbitrary: msk) (auto simp: check_bit_set_bit_mask)

lemma check_bit_zero_mask: "\<not> check_bit (replicate 32 0) b"
  using byte_index [of b] by (simp add: check_bit_bit)

lemma take_strlen_c_str: "take (strlen ts) ts = c_str ts"
  by (simp add: strlen_def c_str_def takeWhile_eq_take [symmetric])

lemma check_bit_trim_mask: "check_bit (trim_mask ts) b \<longleftrightarrow> b \<in> set (c_str ts)"
  by (simp add: trim_mask_def take_strlen_c_str check_bit_fold check_bit_zero_mask)

lemma zero_notin_c_str: "0 \<notin> set (c_str ts)"
  by (auto simp: c_str_def dest: set_takeWhileD)

lemma c_str_idem [simp]: "c_str (c_str ts) = c_str ts"
  by (simp add: c_str_def)

lemma strlen_c_str_idem [simp]: "strlen (c_str ts) = strlen ts"
  by (simp add: strlen_c_str)

lemma trim_mask_c_str: "trim_mask (c_str ts) = trim_mask ts"
  by (simp add: trim_mask_def take_strlen_c_str) (simp add: strlen_c_str)

lemma xs_trim_empty_cutset: "hd (ts @ [0]) = 0 \<Longrightarrow> xs_trim h x ts = Inr (x, h)"
  by (simp add: xs_trim_def)

lemma hd_c_str: "hd (c_str ts @ [0]) = 0 \<longleftrightarrow> hd (ts @ [0]) = 0"
  by (cases ts) (auto simp: c_str_def)

lemma strlen_c_str_id: "strlen (c_str ts) = strlen ts"
  by simp

subsection \<open>Trimming\<close>

lemma scan_fwd_all:
  "(\<And>j. i \<le> j \<Longrightarrow> j < i + k \<Longrightarrow> \<exists>b. rd j = Inr b \<and> check_bit msk b) \<Longrightarrow>
   scan_fwd rd msk i k = Inr (i + k)"
proof (induction k arbitrary: i)
  case 0
  then show ?case by simp
next
  case (Suc k)
  obtain b where b: "rd i = Inr b" "check_bit msk b"
    using Suc.prems [of i] by auto
  have "scan_fwd rd msk (i + 1) k = Inr (i + 1 + k)"
    using Suc.prems by (intro Suc.IH) simp_all
  with b show ?case by simp
qed

lemma scan_bwd_all:
  "(\<And>j. j < k \<Longrightarrow> \<exists>b. rd j = Inr b \<and> check_bit msk b) \<Longrightarrow> scan_bwd rd msk k = Inr 0"
proof (induction k)
  case 0
  then show ?case by simp
next
  case (Suc k)
  obtain b where b: "rd k = Inr b" "check_bit msk b"
    using Suc.prems [of k] by auto
  have "scan_bwd rd msk k = Inr 0"
    using Suc.prems by (intro Suc.IH) simp_all
  with b show ?case by simp
qed

lemma peek_Own: "length x = 16 \<Longrightarrow> i < 16 \<Longrightarrow> peek h x (Own 0) i = Inr (x ! i)"
  by (simp add: peek_def load_Own hd_drop_conv_nth take_Suc_conv_app_nth)

lemma xs_cow_lazy_copy_unshared:
  "\<not> is_large_string x \<Longrightarrow> xs_cow_lazy_copy h x d = Inr (x, h, d, Some False)"
  by (simp add: xs_cow_lazy_copy_def xs_get_ref_count_def xs_is_large_string_def)

lemma sub64_0: "0 < n \<Longrightarrow> n < 2 ^ 64 \<Longrightarrow> sub64 0 n = 2 ^ 64 - n"
  by (simp add: sub64_def)

lemma xs_trim_inline_all_members:
  assumes "length x = 16" "\<not> is_ptr x" "\<not> is_large_string x" "hd (ts @ [0]) \<noteq> 0"
    and "0 < xs_size x" "\<And>j. j < xs_size x \<Longrightarrow> x ! j \<in> set (c_str ts)"
  shows "xs_trim h x ts = Inl OutOfBounds"
proof -
  let ?n = "xs_size x"
  have n15: "?n \<le> 15" using assms(2) by (simp add: xs_size_def xs_is_ptr_def)
  have rd: "\<exists>b. peek h x (Own 0) j = Inr b \<and> check_bit (trim_mask ts) b" if "j < ?n" for j
    using that n15 assms(1,6) by (simp add: peek_Own check_bit_trim_mask)
  have f: "scan_fwd (peek h x (Own 0)) (trim_mask ts) 0 ?n = Inr ?n"
    using scan_fwd_all [of 0 ?n "peek h x (Own 0)" "trim_mask ts"] rd by simp
  have b: "scan_bwd (peek h x (Own 0)) (trim_mask ts) ?n = Inr 0"
    using scan_bwd_all [of ?n "peek h x (Own 0)" "trim_mask ts"] rd by simp
  have s: "sub64 0 ?n = 18446744073709551616 - ?n"
    using assms(5) n15 sub64_0 [of ?n] by simp
  have l: "load h x (Own ?n) (18446744073709551616 - ?n) = Inl OutOfBounds"
    using n15 by (simp add: load_def)
  show ?thesis
    using assms(2,3,4)
    by (simp add: xs_trim_def xs_cow_lazy_copy_unshared xs_data_def xs_is_ptr_def Let_def f b s l)
qed

subsection \<open>Copy of an exclusive buffer\<close>

lemma xs_copy_medium:
  assumes "length src = 16" "is_ptr src" "\<not> is_large_string src"
    and "blocks h (fld_ptr src) = Some bs" "fld_size src \<le> length bs"
    and "brk h < 2 ^ 64" "brk h \<noteq> fld_ptr src" "fld_size src \<le> 2 ^ fld_capacity src"
  shows "xs_copy h src =
     Inr (set_ptr (brk h) src,
          h\<lparr>blocks := (blocks h)(brk h \<mapsto>
                 overwrite (fresh_block h (2 ^ fld_capacity src)) 0 (take (fld_size src) bs)),
            brk := brk h + 2 ^ fld_capacity src + 16\<rparr>)"
  using assms
  by (simp add: xs_copy_def xs_is_ptr_def xs_is_large_string_def malloc_eq Let_def load_Blk store_Blk)

lemma nth_fresh_block: "i < n \<Longrightarrow> fresh_block h n ! i = junk h (brk h + i)"
  by (simp add: fresh_block_def)

lemma xs_copy_medium_terminator:
  assumes "length src = 16" "is_ptr src" "\<not> is_large_string src"
    and "blocks h (fld_ptr src) = Some bs" "fld_size src \<le> length bs"
    and "brk h < 2 ^ 64" "brk h \<noteq> fld_ptr src" "fld_size src < 2 ^ fld_capacity src"
  shows "bnd (xs_copy h src) (\<lambda>(d, h'). terminator h' d) = Inr [junk h (brk h + fld_size src)]"
proof -
  let ?n = "fld_size src" and ?k = "fld_capacity src"
  let ?blk = "overwrite (fresh_block h (2 ^ ?k)) 0 (take ?n bs)"
  have le: "?n \<le> 2 ^ ?k" using assms(8) by simp
  have len: "length ?blk = 2 ^ ?k" using assms(5) le by simp
  have "take 1 (drop ?n ?blk) = [?blk ! ?n]"
    using assms(8) len by (simp add: take_Suc_conv_app_nth)
  also have "?blk ! ?n = fresh_block h (2 ^ ?k) ! ?n"
    using assms(5,8) by (simp add: nth_overwrite)
  also have "\<dots> = junk h (brk h + ?n)"
    using assms(8) by (rule nth_fresh_block)
  finally have t: "take 1 (drop ?n ?blk) = [junk h (brk h + ?n)]" .
  show ?thesis
    using assms(1,2,3,6,8) len t
    by (simp add: xs_copy_medium [OF assms(1-7) le] terminator_def xs_data_def xs_size_def
        xs_is_ptr_def xs_is_large_string_def load_Blk)
qed

lemma bit_length_17: "bit_length 17 = 5"
  by (simp add: bit_length.simps)

subsection \<open>Detaching a shared buffer\<close>

lemma brk_set_count [simp]: "brk (set_count h p c) = brk h"
  by (simp add: set_count_def)

lemma junk_set_count [simp]: "junk (set_count h p c) = junk h"
  by (simp add: set_count_def)

lemma fresh_block_set_count [simp]: "fresh_block (set_count h p c) n = fresh_block h n"
  by (simp add: fresh_block_def)

lemma blocks_set_count_other [simp]: "q \<noteq> p \<Longrightarrow> blocks (set_count h p c) q = blocks h q"
  by (simp add: set_count_def)

lemma count_block_blocks:
  "count_block h p c \<Longrightarrow> \<exists>bs. blocks h p = Some bs \<and> 4 \<le> length bs"
  by (auto simp: count_block_def)

lemma set_is_large_string_idem:
  "length x = 16 \<Longrightarrow> is_large_string x \<Longrightarrow> set_is_large_string x = x"
proof -
  assume a: "length x = 16" "is_large_string x"
  have "set_bit 5 (x ! 15) = x ! 15"
    by (rule bit_eqI) (use a in \<open>auto simp: bit_simps is_large_string_def\<close>)
  then show ?thesis by (simp add: set_is_large_string_def)
qed

lemma xs_cow_lazy_copy_large:
  assumes "length x = 16" "is_ptr x" "is_large_string x"
    and "count_block h (fld_ptr x) c" "1 < sint c"
    and "blocks h (fld_ptr x) = Some bs" "4 + fld_size x \<le> length bs"
    and "256 \<le> fld_size x" "fld_capacity x < 31" "fld_size x \<le> 2 ^ fld_capacity x"
    and "brk h < 2 ^ 64" "brk h \<noteq> fld_ptr x"
  shows "xs_cow_lazy_copy h x (xs_data x) =
     Inr (set_ptr (brk h) x,
          h\<lparr>blocks := (blocks h)
                 (fld_ptr x \<mapsto> overwrite bs 0 (le_bytes 4 (c - 1)),
                  brk h \<mapsto> overwrite (overwrite (fresh_block h (2 ^ fld_capacity x + 4)) 0
                              (le_bytes 4 (1 :: 32 word))) 4 (take (fld_size x) (drop 4 bs))),
            brk := brk h + (2 ^ fld_capacity x + 4) + 16\<rparr>,
          Blk (brk h) 4, None)"
proof -
  have nm: "c \<noteq> 0x80000000" using assms(5) by auto
  have gt: "\<not> sint c \<le> 1" using assms(5) by simp
  define h1 where "h1 = set_count h (fld_ptr x) (c - 1)"
  define h2 where "h2 = h1\<lparr>blocks := (blocks h1)(brk h1 \<mapsto>
      overwrite (fresh_block h1 (2 ^ fld_capacity x + 4)) 0 (le_bytes 4 (1 :: 32 word))),
    brk := brk h1 + (2 ^ fld_capacity x + 4) + 16\<rparr>"
  define h3 where "h3 = h\<lparr>blocks := (blocks h)
      (fld_ptr x \<mapsto> overwrite bs 0 (le_bytes 4 (c - 1)),
       brk h \<mapsto> overwrite (overwrite (fresh_block h (2 ^ fld_capacity x + 4)) 0
                   (le_bytes 4 (1 :: 32 word))) 4 (take (fld_size x) (drop 4 bs))),
    brk := brk h + (2 ^ fld_capacity x + 4) + 16\<rparr>"
  have b1: "brk h1 = brk h" by (simp add: h1_def)
  have dc: "xs_dec_ref_count h x = Inr (sint (c - 1), h1)"
    unfolding h1_def using assms(3,4) nm by (rule xs_dec_ref_count_large)
  have al: "xs_allocate_data h1 x (fld_size x) False = Inr (set_ptr (brk h) x, h2)"
    using xs_allocate_data_large [of "fld_size x" x h1] assms(1,3,8,9,11) b1
    by (simp add: set_is_large_string_idem h2_def)
  have ld: "load h2 (set_ptr (brk h) x) (Blk (fld_ptr x) 4) (fld_size x) =
      Inr (take (fld_size x) (drop 4 bs))"
    using assms(6,7,12) by (simp add: load_Blk h2_def h1_def set_count_def overwrite_def)
  have st: "store h2 (set_ptr (brk h) x) (Blk (brk h) 4) (take (fld_size x) (drop 4 bs)) =
      Inr (set_ptr (brk h) x, h3)"
    using assms(6,7,10,12)
    by (simp add: store_Blk h2_def h1_def h3_def set_count_def fresh_block_def)
  show ?thesis
    unfolding h3_def [symmetric]
    using assms(1,2,3,11) gt
    by (simp add: xs_cow_lazy_copy_def xs_get_ref_count_large [OF assms(3,4)]
        dc al xs_data_def xs_is_ptr_def xs_is_large_string_def ld st)
qed

lemma xs_trim_shared_no_return:
  assumes "length x = 16" "is_ptr x" "is_large_string x"
    and "count_block h (fld_ptr x) c" "1 < sint c"
    and "blocks h (fld_ptr x) = Some bs" "4 + fld_size x \<le> length bs"
    and "256 \<le> fld_size x" "fld_capacity x < 31" "fld_size x \<le> 2 ^ fld_capacity x"
    and "brk h < 2 ^ 64" "brk h \<noteq> fld_ptr x"
    and "hd (ts @ [0]) \<noteq> 0"
  shows "xs_trim h x ts = Inl NoReturnValue"
  using assms(13) by (simp add: xs_trim_def xs_cow_lazy_copy_large [OF assms(1-12)])

lemma bit_length_257: "bit_length 257 = 9"
  by (simp add: bit_length.simps)

subsection \<open>The scans of a trim\<close>

lemma scan_fwd_takeWhile:
  "(\<And>j. j < length c \<Longrightarrow> rd (i + j) = Inr (c ! j)) \<Longrightarrow>
   scan_fwd rd msk i (length c) = Inr (i + length (takeWhile (check_bit msk) c))"
proof (induction c arbitrary: i)
  case Nil
  then show ?case by simp
next
  case (Cons b c)
  have b: "rd i = Inr b" using Cons.prems [of 0] by simp
  have "rd (i + 1 + j) = Inr (c ! j)" if "j < length c" for j
    using Cons.prems [of "Suc j"] that by simp
  then have "scan_fwd rd msk (i + 1) (length c) = Inr (i + 1 + length (takeWhile (check_bit msk) c))"
    by (rule Cons.IH)
  with b show ?case by simp
qed

lemma scan_bwd_takeWhile:
  "k \<le> length c \<Longrightarrow> (\<And>j. j < k \<Longrightarrow> rd j = Inr (c ! j)) \<Longrightarrow>
   scan_bwd rd msk k = Inr (k - length (takeWhile (check_bit msk) (rev (take k c))))"
proof (induction k)
  case 0
  then show ?case by simp
next
  case (Suc k)
  have b: "rd k = Inr (c ! k)" using Suc.prems(2) [of k] by simp
  have t: "rev (take (Suc k) c) = c ! k # rev (take k c)"
    using Suc.prems(1) by (simp add: take_Suc_conv_app_nth)
  have ih: "scan_bwd rd msk k = Inr (k - length (takeWhile (check_bit msk) (rev (take k c))))"
    using Suc.prems by (intro Suc.IH) simp_all
  have "length (takeWhile (check_bit msk) (rev (take k c))) \<le> k"
    by (rule order_trans [OF length_takeWhile_le]) simp
  with b t ih show ?case by simp
qed

lemma trimmed_take_drop:
  assumes "\<exists>b \<in> set c. \<not> P b"
  defines "i \<equiv> length (takeWhile P c)"
  defines "e \<equiv> length c - length (takeWhile P (rev c))"
  shows "i < e" "e \<le> length c"
    "take (e - i) (drop i c) = rev (dropWhile P (rev (dropWhile P c)))"
proof -
  let ?d = "dropWhile P c"
  have d: "drop i c = ?d" unfolding i_def by (simp add: dropWhile_eq_drop)
  have c: "c = takeWhile P c @ ?d" by simp
  have dne: "?d \<noteq> []" using assms(1) by (simp add: dropWhile_eq_Nil_conv)
  then have hd_d: "\<not> P (hd ?d)" by (simp add: hd_dropWhile)
  have "hd ?d \<in> set (rev ?d)" using dne by simp
  with hd_d have ex: "\<exists>b \<in> set (rev ?d). \<not> P b" by blast
  have "rev c = rev ?d @ rev (takeWhile P c)"
    by (subst c) (simp only: rev_append)
  then have tw: "takeWhile P (rev c) = takeWhile P (rev ?d)"
    using ex by (simp add: takeWhile_append1 [symmetric] del: rev_append)
        (metis takeWhile_append1 ex)
  have ld: "length c = i + length ?d"
    unfolding i_def by (metis c length_append)
  have lt: "length (takeWhile P (rev ?d)) < length ?d"
  proof -
    have "length (takeWhile P (rev ?d)) \<le> length (rev ?d)" by (rule length_takeWhile_le)
    moreover have "length (takeWhile P (rev ?d)) \<noteq> length (rev ?d)"
      using ex by (metis takeWhile_eq_all_conv length_takeWhile_le takeWhile_eq_take take_all_iff order_refl)
    ultimately show ?thesis by simp
  qed
  show "i < e" unfolding e_def tw using ld lt by simp
  show "e \<le> length c" unfolding e_def by simp
  have "e - i = length ?d - length (takeWhile P (rev ?d))"
    unfolding e_def tw using ld by simp
  then have "take (e - i) (drop i c) = take (length ?d - length (takeWhile P (rev ?d))) ?d"
    by (simp add: d)
  also have "\<dots> = rev (drop (length (takeWhile P (rev ?d))) (rev ?d))"
    by (simp add: rev_drop)
  also have "\<dots> = rev (dropWhile P (rev ?d))"
    by (simp add: dropWhile_eq_drop)
  finally show "take (e - i) (drop i c) = rev (dropWhile P (rev (dropWhile P c)))" .
qed


lemma check_bit_trim_mask_eq: "check_bit (trim_mask ts) = (\<lambda>b. b \<in> set (c_str ts))"
  by (rule ext) (rule check_bit_trim_mask)

lemma overwrite_single: "i < length bs \<Longrightarrow> overwrite bs i [b] = bs[i := b]"
  by (simp add: overwrite_def upd_conv_take_nth_drop)

lemma xs_cow_lazy_copy_sole:
  "is_large_string x \<Longrightarrow> count_block h (fld_ptr x) c \<Longrightarrow> sint c \<le> 1 \<Longrightarrow>
   xs_cow_lazy_copy h x d = Inr (x, h, d, Some False)"
  by (simp add: xs_cow_lazy_copy_def xs_get_ref_count_large)

lemma sub64_minus: "i \<le> e \<Longrightarrow> e < 2 ^ 64 \<Longrightarrow> sub64 e i = e - i"
  by (rule sub64_simple)

lemma xs_trim_inline:
  assumes "length x = 16" "\<not> is_ptr x" "\<not> is_large_string x" "hd (ts @ [0]) \<noteq> 0"
    and "\<exists>b \<in> set (take (xs_size x) x). b \<notin> set (c_str ts)"
  defines "m \<equiv> trimmed (c_str ts) (take (xs_size x) x)"
  shows "xs_trim h x ts =
     Inr (set_space_left (15 - length m) ((overwrite x 0 m)[length m := 0]), h)"
    and "length m \<le> xs_size x"
proof -
  let ?n = "xs_size x" and ?P = "\<lambda>b. b \<in> set (c_str ts)"
  let ?c = "take ?n x"
  have n15: "?n \<le> 15" using assms(2) by (simp add: xs_size_def xs_is_ptr_def)
  have lc: "length ?c = ?n" using assms(1) n15 by simp
  define i where "i = length (takeWhile ?P ?c)"
  define e where "e = length ?c - length (takeWhile ?P (rev ?c))"
  have ie: "i < e" "e \<le> length ?c" and tk: "take (e - i) (drop i ?c) = m"
    unfolding i_def e_def m_def trimmed_def using trimmed_take_drop [of ?c ?P] assms(5) by blast+
  have en: "e \<le> ?n" using ie(2) unfolding lc .
  have e15: "e \<le> 15" using en n15 by simp
  have "e - i \<le> length ?c - i" using ie(2) by (rule diff_le_mono)
  then have "length (take (e - i) (drop i ?c)) = e - i" by simp
  then have lm: "length m = e - i" by (simp only: tk)
  show "length m \<le> xs_size x" using lm en by linarith
  have lm15: "length m \<le> 15" using lm e15 by linarith
  have rd: "peek h x (Own 0) (0 + j) = Inr (?c ! j)" if "j < length ?c" for j
    using that lc n15 assms(1) by (simp add: peek_Own)
  have f: "scan_fwd (peek h x (Own 0)) (trim_mask ts) 0 ?n = Inr i"
    using scan_fwd_takeWhile [of ?c "peek h x (Own 0)" 0 "trim_mask ts"] rd lc
    by (simp add: i_def check_bit_trim_mask_eq)
  have rd': "peek h x (Own 0) j = Inr (?c ! j)" if "j < ?n" for j
    using rd [of j] that lc by simp
  have b: "scan_bwd (peek h x (Own 0)) (trim_mask ts) ?n = Inr e"
    using scan_bwd_takeWhile [of ?n ?c "peek h x (Own 0)" "trim_mask ts"] rd' lc
    by (simp add: e_def check_bit_trim_mask_eq)
  have s: "sub64 e i = length m"
    unfolding lm using ie(1) e15 by (intro sub64_minus) simp_all
  have "take (e - i) (drop i x) = take (e - i) (drop i ?c)"
    using ie(1) en by (simp add: drop_take min_def)
  then have ld: "load h x (Own i) (length m) = Inr m"
    using ie e15 tk lm by (simp add: load_Own)
  have st: "store h x (Own 0) m = Inr (overwrite x 0 m, h)"
    using lm15 by (simp add: store_Own)
  let ?x1 = "overwrite x 0 m"
  have l1: "length ?x1 = 16" using assms(1) lm15 by simp
  have pk: "peek h ?x1 (Own 0) (length m) = Inr (?x1 ! length m)"
    using l1 lm15 by (intro peek_Own) simp_all
  have x15: "?x1[length m := 0] ! 15 = (if length m = 15 then 0 else x ! 15)"
    using assms(1) l1 lm15 by (simp add: nth_overwrite nth_list_update)
  have np: "\<not> is_ptr (?x1[length m := 0])"
    using assms(2) by (simp add: is_ptr_def x15)
  have s15: "sub64 15 (length m) = 15 - length m"
    using lm15 by (intro sub64_minus) simp_all
  show "xs_trim h x ts =
     Inr (set_space_left (15 - length m) ((overwrite x 0 m)[length m := 0]), h)"
  proof (cases "?x1 ! length m = 0")
    case True
    then have "?x1[length m := 0] = ?x1" by (metis list_update_id)
    with True show ?thesis
      using assms(2,3,4) np
      by (simp add: xs_trim_def xs_cow_lazy_copy_unshared xs_data_def xs_is_ptr_def Let_def
          f b s ld st pk s15)
  next
    case False
    have "store h ?x1 (Own (length m)) [0] = Inr (?x1[length m := 0], h)"
      using l1 lm15 by (simp add: store_Own overwrite_single)
    with False show ?thesis
      using assms(2,3,4) np
      by (simp add: xs_trim_def xs_cow_lazy_copy_unshared xs_data_def xs_is_ptr_def Let_def
          f b s ld st pk s15)
  qed
qed


lemma xs_trim_inline_observed:
  assumes "length x = 16" "\<not> is_ptr x" "\<not> is_large_string x" "hd (ts @ [0]) \<noteq> 0"
    and "\<exists>b \<in> set (take (xs_size x) x). b \<notin> set (c_str ts)"
  defines "m \<equiv> trimmed (c_str ts) (take (xs_size x) x)"
  shows "\<exists>x'. xs_trim h x ts = Inr (x', h) \<and> variant_of x' = Inline \<and> content h x' = Inr m \<and>
           xs_size x' = length m \<and> xs_capacity x' = 15 \<and> terminator h x' = Inr [0]"
proof -
  let ?y = "(overwrite x 0 m)[length m := 0]"
  let ?x' = "set_space_left (15 - length m) ?y"
  have n15: "xs_size x \<le> 15" using assms(2) by (simp add: xs_size_def xs_is_ptr_def)
  have t: "xs_trim h x ts = Inr (?x', h)" and "length m \<le> xs_size x"
    unfolding m_def using assms(1-5) by (rule xs_trim_inline)+
  then have lm: "length m \<le> 15" using n15 by linarith
  have ly: "length ?y = 16" using assms(1) lm by simp
  have y15: "?y ! 15 = (if length m = 15 then 0 else x ! 15)"
    using assms(1) lm by (simp add: nth_overwrite nth_list_update)
  have "is_ptr ?x' = is_ptr ?y" using ly by simp
  then have np: "\<not> is_ptr ?x'"
    using assms(2) by (simp add: is_ptr_def y15)
  have sz: "xs_size ?x' = length m"
    using np ly lm by (simp add: xs_size_def xs_is_ptr_def)
  have cap: "xs_capacity ?x' = 15"
    using np by (simp add: xs_capacity_def xs_is_ptr_def)
  have "take (length m) ?x' = take (length m) (overwrite x 0 m)"
    using lm by (simp add: set_space_left_def)
  also have "\<dots> = m" by (simp add: overwrite_def)
  finally have ct: "content h ?x' = Inr m"
    using np lm by (simp add: content_def xs_data_def xs_is_ptr_def sz load_Own)
  have "?x' ! length m = 0"
  proof (cases "length m = 15")
    case True
    then show ?thesis using ly y15 by (simp add: set_space_left_def)
  next
    case False
    then have "length m < 15" using lm by simp
    then show ?thesis using assms(1) by (simp add: set_space_left_def)
  qed
  then have "take 1 (drop (length m) ?x') = [0]"
    using ly lm by (simp add: take_Suc_conv_app_nth)
  then have tm: "terminator h ?x' = Inr [0]"
    using np lm by (simp add: terminator_def xs_data_def xs_is_ptr_def sz load_Own)
  show ?thesis
    using t np sz cap ct tm by (simp add: variant_of_Inline)
qed

lemma fld_size_less: "fld_size x < 2 ^ 54"
proof -
  have "unat (take_bit 54 (hi x)) = take_bit 54 (unat (hi x))"
    by (simp add: unsigned_take_bit_eq)
  then show ?thesis
    by (simp add: fld_size_def take_bit_eq_mod)
qed

lemma peek_Blk:
  "blocks h p = Some bs \<Longrightarrow> off + j < length bs \<Longrightarrow> peek h x (Blk p off) j = Inr (bs ! (off + j))"
  by (simp add: peek_def load_Blk hd_drop_conv_nth take_Suc_conv_app_nth)

lemma xs_trim_heap:
  assumes "length x = 16" "is_ptr x"
    and "\<not> is_large_string x \<or> (\<exists>c. count_block h (fld_ptr x) c \<and> sint c \<le> 1)"
    and "hd (ts @ [0]) \<noteq> 0"
    and "blocks h (fld_ptr x) = Some bs"
    and "off = (if is_large_string x then 4 else 0)"
    and "off + fld_size x < length bs"
    and "\<exists>b \<in> set (take (fld_size x) (drop off bs)). b \<notin> set (c_str ts)"
  defines "m \<equiv> trimmed (c_str ts) (take (fld_size x) (drop off bs))"
  shows "xs_trim h x ts =
     Inr (set_size (length m) x,
          h\<lparr>blocks := (blocks h)(fld_ptr x \<mapsto> (overwrite bs off m)[off + length m := 0])\<rparr>)"
    and "length m \<le> fld_size x"
proof -
  let ?n = "fld_size x" and ?P = "\<lambda>b. b \<in> set (c_str ts)" and ?p = "fld_ptr x"
  let ?c = "take ?n (drop off bs)"
  have lc: "length ?c = ?n" using assms(7) by simp
  have sz: "xs_size x = ?n" using assms(2) by (simp add: xs_size_def xs_is_ptr_def)
  have dt: "xs_data x = Blk ?p off"
    using assms(2,6) by (simp add: xs_data_def xs_is_ptr_def xs_is_large_string_def)
  have cow: "xs_cow_lazy_copy h x (Blk ?p off) = Inr (x, h, Blk ?p off, Some False)"
  proof (cases "is_large_string x")
    case True
    with assms(3) obtain c where "count_block h (fld_ptr x) c" "sint c \<le> 1" by blast
    with True show ?thesis by (rule xs_cow_lazy_copy_sole)
  next
    case False
    then show ?thesis by (rule xs_cow_lazy_copy_unshared)
  qed
  define i where "i = length (takeWhile ?P ?c)"
  define e where "e = length ?c - length (takeWhile ?P (rev ?c))"
  have ie: "i < e" "e \<le> length ?c" and tk: "take (e - i) (drop i ?c) = m"
    unfolding i_def e_def m_def trimmed_def using trimmed_take_drop [of ?c ?P] assms(8) by blast+
  have en: "e \<le> ?n" using ie(2) unfolding lc .
  have "e - i \<le> length ?c - i" using ie(2) by (rule diff_le_mono)
  then have "length (take (e - i) (drop i ?c)) = e - i" by simp
  then have lm: "length m = e - i" by (simp only: tk)
  show "length m \<le> fld_size x" using lm en by linarith
  have lmn: "length m \<le> ?n" using lm en by linarith
  have rd: "peek h x (Blk ?p off) (0 + j) = Inr (?c ! j)" if "j < length ?c" for j
    using that lc assms(5,7) by (simp add: peek_Blk)
  have f: "scan_fwd (peek h x (Blk ?p off)) (trim_mask ts) 0 ?n = Inr i"
    using scan_fwd_takeWhile [of ?c "peek h x (Blk ?p off)" 0 "trim_mask ts"] rd lc
    by (simp add: i_def check_bit_trim_mask_eq)
  have rd': "peek h x (Blk ?p off) j = Inr (?c ! j)" if "j < ?n" for j
    using rd [of j] that lc by simp
  have b: "scan_bwd (peek h x (Blk ?p off)) (trim_mask ts) ?n = Inr e"
    using scan_bwd_takeWhile [of ?n ?c "peek h x (Blk ?p off)" "trim_mask ts"] rd' lc
    by (simp add: e_def check_bit_trim_mask_eq)
  have "e < 2 ^ 54" using en fld_size_less [of x] by linarith
  then have "e < 2 ^ 64" by (rule less_trans) simp
  then have s: "sub64 e i = length m"
    unfolding lm using ie(1) by (intro sub64_minus) simp_all
  have "take (e - i) (drop (off + i) bs) = take (e - i) (drop i ?c)"
    using ie(1) en by (simp add: drop_take min_def add.commute)
  then have ld: "load h x (Blk ?p (off + i)) (length m) = Inr m"
    using assms(5,7) ie(1) en tk lm by (simp add: load_Blk)
  let ?h1 = "h\<lparr>blocks := (blocks h)(?p \<mapsto> overwrite bs off m)\<rparr>"
  have fit: "off + length m \<le> length bs" using lmn assms(7) by linarith
  have st: "store h x (Blk ?p off) m = Inr (x, ?h1)"
    using assms(5) fit by (simp add: store_Blk)
  let ?b1 = "overwrite bs off m"
  have l1: "length ?b1 = length bs" using fit by simp
  have ti: "off + length m < length ?b1" using l1 lmn assms(7) by linarith
  have pk: "peek ?h1 x (Blk ?p off) (length m) = Inr (?b1 ! (off + length m))"
    using ti by (intro peek_Blk) simp_all
  show "xs_trim h x ts =
     Inr (set_size (length m) x,
          h\<lparr>blocks := (blocks h)(fld_ptr x \<mapsto> (overwrite bs off m)[off + length m := 0])\<rparr>)"
  proof (cases "?b1 ! (off + length m) = 0")
    case True
    then have "?b1[off + length m := 0] = ?b1" by (metis list_update_id)
    with True show ?thesis
      using assms(2,4)
      by (simp add: xs_trim_def dt cow sz xs_is_ptr_def Let_def f b s ld st pk)
  next
    case False
    have "store ?h1 x (Blk ?p (off + length m)) [0] =
        Inr (x, h\<lparr>blocks := (blocks h)(?p \<mapsto> ?b1[off + length m := 0])\<rparr>)"
      using ti by (simp add: store_Blk overwrite_single)
    with False show ?thesis
      using assms(2,4)
      by (simp add: xs_trim_def dt cow sz xs_is_ptr_def Let_def f b s ld st pk)
  qed
qed


lemma xs_trim_heap_observed:
  assumes "length x = 16" "is_ptr x"
    and "\<not> is_large_string x \<or> (\<exists>c. count_block h (fld_ptr x) c \<and> sint c \<le> 1)"
    and "hd (ts @ [0]) \<noteq> 0"
    and "blocks h (fld_ptr x) = Some bs"
    and "off = (if is_large_string x then 4 else 0)"
    and "off + fld_size x < length bs"
    and "\<exists>b \<in> set (take (fld_size x) (drop off bs)). b \<notin> set (c_str ts)"
  defines "m \<equiv> trimmed (c_str ts) (take (fld_size x) (drop off bs))"
  shows "\<exists>x' h'. xs_trim h x ts = Inr (x', h') \<and> variant_of x' = variant_of x \<and>
           content h' x' = Inr m \<and> xs_size x' = length m \<and> xs_capacity x' = xs_capacity x \<and>
           terminator h' x' = Inr [0]"
proof -
  let ?b = "(overwrite bs off m)[off + length m := 0]"
  let ?x' = "set_size (length m) x"
  let ?h' = "h\<lparr>blocks := (blocks h)(fld_ptr x \<mapsto> ?b)\<rparr>"
  have t: "xs_trim h x ts = Inr (?x', ?h')" and lmn: "length m \<le> fld_size x"
    unfolding m_def using assms(1-8) by (rule xs_trim_heap)+
  have "length m < 2 ^ 54" using lmn fld_size_less [of x] by linarith
  then have fs: "fld_size ?x' = length m" using assms(1) by simp
  have sz: "xs_size ?x' = length m"
    using assms(1,2) fs by (simp add: xs_size_def xs_is_ptr_def)
  have dt: "xs_data ?x' = Blk (fld_ptr x) off"
    using assms(1,2,6) by (simp add: xs_data_def xs_is_ptr_def xs_is_large_string_def)
  have fit: "off + length m < length bs" using lmn assms(7) by linarith
  then have lb: "length ?b = length bs" by simp
  have "take (length m) (drop off ?b) = take (length m) (drop off (overwrite bs off m))"
    by (simp add: drop_update_swap)
  also have "\<dots> = m" using fit by simp
  finally have ct: "content ?h' ?x' = Inr m"
    using fit lb by (simp add: content_def dt sz load_Blk)
  have "take 1 (drop (off + length m) ?b) = [0]"
    using fit lb by (simp add: take_Suc_conv_app_nth)
  then have tm: "terminator ?h' ?x' = Inr [0]"
    using fit lb by (simp add: terminator_def dt sz load_Blk)
  show ?thesis
    using t sz ct tm assms(1)
    by (simp add: variant_of_def xs_capacity_def xs_is_ptr_def xs_is_large_string_def)
qed

subsection \<open>Detaching a shared buffer that holds less than 256 bytes\<close>

lemma xs_cow_lazy_copy_small:
  assumes "length x = 16" "is_ptr x" "is_large_string x"
    and "count_block h (fld_ptr x) c" "1 < sint c"
    and "blocks h (fld_ptr x) = Some bs" "4 + fld_size x \<le> length bs"
    and "fld_size x < 256" "4 + fld_size x \<le> 2 ^ fld_capacity x"
    and "brk h < 2 ^ 64" "brk h \<noteq> fld_ptr x"
  shows "xs_cow_lazy_copy h x (xs_data x) =
     Inr (set_ptr (brk h) x,
          h\<lparr>blocks := (blocks h)
                 (fld_ptr x \<mapsto> overwrite bs 0 (le_bytes 4 (c - 1)),
                  brk h \<mapsto> overwrite (fresh_block h (2 ^ fld_capacity x)) 4
                              (take (fld_size x) (drop 4 bs))),
            brk := brk h + 2 ^ fld_capacity x + 16\<rparr>,
          Blk (brk h) 4, None)"
proof -
  have nm: "c \<noteq> 0x80000000" using assms(5) by auto
  have gt: "\<not> sint c \<le> 1" using assms(5) by simp
  define h1 where "h1 = set_count h (fld_ptr x) (c - 1)"
  define h2 where "h2 = h1\<lparr>blocks := (blocks h1)(brk h1 \<mapsto> fresh_block h1 (2 ^ fld_capacity x)),
    brk := brk h1 + 2 ^ fld_capacity x + 16\<rparr>"
  define h3 where "h3 = h\<lparr>blocks := (blocks h)
      (fld_ptr x \<mapsto> overwrite bs 0 (le_bytes 4 (c - 1)),
       brk h \<mapsto> overwrite (fresh_block h (2 ^ fld_capacity x)) 4 (take (fld_size x) (drop 4 bs))),
    brk := brk h + 2 ^ fld_capacity x + 16\<rparr>"
  have b1: "brk h1 = brk h" by (simp add: h1_def)
  have dc: "xs_dec_ref_count h x = Inr (sint (c - 1), h1)"
    unfolding h1_def using assms(3,4) nm by (rule xs_dec_ref_count_large)
  have al: "xs_allocate_data h1 x (fld_size x) False = Inr (set_ptr (brk h) x, h2)"
    using xs_allocate_data_medium [of "fld_size x" h1 x] assms(8) b1
    by (simp add: h2_def)
  have ld: "load h2 (set_ptr (brk h) x) (Blk (fld_ptr x) 4) (fld_size x) =
      Inr (take (fld_size x) (drop 4 bs))"
    using assms(6,7,11) by (simp add: load_Blk h2_def h1_def set_count_def overwrite_def)
  have st: "store h2 (set_ptr (brk h) x) (Blk (brk h) 4) (take (fld_size x) (drop 4 bs)) =
      Inr (set_ptr (brk h) x, h3)"
    using assms(6,7,9,11)
    by (simp add: store_Blk h2_def h1_def h3_def set_count_def fresh_block_def)
  show ?thesis
    unfolding h3_def [symmetric]
    using assms(1,2,3,10) gt
    by (simp add: xs_cow_lazy_copy_def xs_get_ref_count_large [OF assms(3,4)]
        dc al xs_data_def xs_is_ptr_def xs_is_large_string_def ld st)
qed

text \<open>After that detach the value still carries the large-string flag, so its reference
  count is read from the first four bytes of a block that has no header: fresh memory.\<close>

lemma xs_cow_lazy_copy_small_count:
  assumes "length x = 16" "is_ptr x" "is_large_string x"
    and "count_block h (fld_ptr x) c" "1 < sint c"
    and "blocks h (fld_ptr x) = Some bs" "4 + fld_size x \<le> length bs"
    and "fld_size x < 256" "4 + fld_size x \<le> 2 ^ fld_capacity x"
    and "brk h < 2 ^ 64" "brk h \<noteq> fld_ptr x"
  shows "bnd (xs_cow_lazy_copy h x (xs_data x)) (\<lambda>(x', h', _). xs_get_ref_count h' x') =
     Inr (sint (le_word (map (junk h) [brk h..<brk h + 4]) :: 32 word))"
proof -
  have "4 \<le> (2 :: nat) ^ fld_capacity x" using assms(9) by simp
  then have "take 4 (fresh_block h (2 ^ fld_capacity x)) = map (junk h) [brk h..<brk h + 4]"
    by (simp add: fresh_block_def take_map min_def)
  then show ?thesis
    using assms(1,3,9,10)
    by (simp add: xs_cow_lazy_copy_small [OF assms] xs_get_ref_count_def xs_is_large_string_def
        load_int_eq)
qed

lemma store_Blk_kept:
  assumes "blocks h b = Some nb" "i + length cs \<le> length nb"
  shows "\<exists>h' nb'. store h x (Blk b i) cs = Inr (x, h') \<and> blocks h' b = Some nb' \<and>
           length nb' = length nb \<and> (\<forall>q. q \<noteq> b \<longrightarrow> blocks h' q = blocks h q)"
  using assms by (simp add: store_Blk)

lemma store_Blk_out_of_bounds:
  "blocks h b = Some nb \<Longrightarrow> length nb < i + length cs \<Longrightarrow> store h x (Blk b i) cs = Inl OutOfBounds"
  by (simp add: store_def)

lemma load_length: "load h x l n = Inr cs \<Longrightarrow> length x = 16 \<Longrightarrow> length cs = n"
  by (auto simp: load_def split: loc.splits option.splits if_splits)

lemma xs_concat_detach_overflow:
  assumes x: "length x = 16" "is_ptr x" "is_large_string x"
    and cnt: "count_block h (fld_ptr x) c" "1 < sint c"
    and blk: "blocks h (fld_ptr x) = Some bs" "4 + fld_size x \<le> length bs"
    and small: "fld_size x < 256" "4 + fld_size x \<le> 2 ^ fld_capacity x"
    and brk: "brk h < 2 ^ 64" "brk h \<noteq> fld_ptr x" "brk h \<noteq> fld_ptr suffix"
    and pre: "length prefix = 16" "\<not> is_ptr prefix"
    and suf: "length suffix = 16" "is_ptr suffix" "\<not> is_large_string suffix"
      "blocks h (fld_ptr suffix) = Some sb" "fld_size suffix + 1 \<le> length sb"
      "fld_ptr suffix \<noteq> fld_ptr x"
    and fast: "fld_size x + xs_size prefix + fld_size suffix \<le> 2 ^ fld_capacity x - 1"
    and over: "2 ^ fld_capacity x < fld_size x + xs_size prefix + fld_size suffix + 5"
  shows "xs_concat h x prefix suffix = Inl OutOfBounds"
proof -
  define n where "n = fld_size x"
  define pres where "pres = xs_size prefix"
  define sufs where "sufs = fld_size suffix"
  define K :: nat where "K = 2 ^ fld_capacity x"
  define b where "b = brk h"
  define q where "q = fld_ptr suffix"
  define s0 where "s0 = set_ptr b x"
  define nb where "nb = overwrite (fresh_block h K) 4 (take n (drop 4 bs))"
  define h0 where "h0 = h\<lparr>blocks := (blocks h)
      (fld_ptr x \<mapsto> overwrite bs 0 (le_bytes 4 (c - 1)), b \<mapsto> nb), brk := b + K + 16\<rparr>"
  have cow: "xs_cow_lazy_copy h x (xs_data x) = Inr (s0, h0, Blk b 4, None)"
    unfolding s0_def h0_def nb_def b_def K_def n_def
    using x cnt blk small brk(1,2) by (rule xs_cow_lazy_copy_small)
  have sz: "xs_size x = n" "xs_size suffix = sufs" "xs_capacity x = K - 1"
    using x(2) suf(2) by (simp_all add: xs_size_def xs_capacity_def xs_is_ptr_def n_def sufs_def K_def)
  have ds: "xs_data prefix = Own 0" "xs_data suffix = Blk q 0"
    using pre(2) suf(2,3)
    by (simp_all add: xs_data_def xs_is_ptr_def xs_is_large_string_def q_def)
  have p15: "pres \<le> 15"
    using pre(2) by (simp add: pres_def xs_size_def xs_is_ptr_def)
  have n4: "4 + n \<le> K" using small(2) by (simp add: n_def K_def)
  have lnb: "length nb = K" using n4 blk(2) by (simp add: nb_def n_def)
  have fastp: "n + pres + sufs \<le> K - 1"
    using fast by (simp add: n_def pres_def sufs_def K_def)
  have overp: "K < n + pres + sufs + 5"
    using over by (simp add: n_def pres_def sufs_def K_def)
  have b0: "blocks h0 b = Some nb" by (simp add: h0_def)
  have q0: "blocks h0 q = Some sb"
    using suf(4,6) brk(3) by (simp add: h0_def q_def b_def)
  have qb: "q \<noteq> b" using brk(3) by (simp add: q_def b_def)
  have ls0: "length s0 = 16" using x(1) by (simp add: s0_def)
  obtain c1 where c1: "load h0 s0 (Blk b 4) n = Inr c1" "length c1 = n"
    using b0 lnb n4 by (simp add: load_Blk)
  show ?thesis
  proof (cases "4 + pres + n \<le> K")
    case False
    then have "length nb < (4 + pres) + length c1"
      using lnb c1(2) by linarith
    with b0 have "store h0 s0 (Blk b (4 + pres)) c1 = Inl OutOfBounds"
      by (rule store_Blk_out_of_bounds)
    then show ?thesis
      using fastp
      by (simp add: xs_concat_def Let_def sz ds cow c1 pres_def [symmetric])
  next
    case True
    obtain h1 nb1 where h1: "store h0 s0 (Blk b (4 + pres)) c1 = Inr (s0, h1)"
      "blocks h1 b = Some nb1" "length nb1 = K" "\<forall>r. r \<noteq> b \<longrightarrow> blocks h1 r = blocks h0 r"
      using store_Blk_kept [of h0 b nb "4 + pres" c1 s0] b0 lnb c1(2) True
      by (auto simp: add.assoc)
    obtain c2 where c2: "load h1 prefix (Own 0) pres = Inr c2" "length c2 = pres"
      using p15 pre(1) by (simp add: load_Own)
    obtain h2 nb2 where h2: "store h1 s0 (Blk b 4) c2 = Inr (s0, h2)"
      "blocks h2 b = Some nb2" "length nb2 = K" "\<forall>r. r \<noteq> b \<longrightarrow> blocks h2 r = blocks h1 r"
      using store_Blk_kept [of h1 b nb1 4 c2 s0] h1(2,3) c2(2) True by auto
    have "blocks h2 q = Some sb"
      using h2(4) h1(4) q0 qb by simp
    then obtain c3 where c3: "load h2 suffix (Blk q 0) (Suc sufs) = Inr c3" "length c3 = sufs + 1"
      using suf(5) by (simp add: load_Blk sufs_def)
    have "length nb2 < (4 + (pres + n)) + length c3"
      using h2(3) c3(2) overp by linarith
    with h2(2) have "store h2 s0 (Blk b (4 + (pres + n))) c3 = Inl OutOfBounds"
      by (rule store_Blk_out_of_bounds)
    then show ?thesis
      using fastp
      by (simp add: xs_concat_def Let_def sz ds cow c1 h1 c2 h2 c3 pres_def [symmetric])
  qed
qed

subsection \<open>Concrete strings\<close>

lemma bit_length_301: "bit_length 301 = 9"
  by (simp add: bit_length.simps)

lemma bit_length_255: "bit_length 255 = 8"
  by (simp add: bit_length.simps)

lemma c_str_no_zero: "0 \<notin> set p \<Longrightarrow> c_str p = p"
  by (auto simp: c_str_def takeWhile_eq_all_conv)

lemma strlen_no_zero: "0 \<notin> set p \<Longrightarrow> strlen p = length p"
  by (simp add: strlen_c_str c_str_no_zero)

lemma take_drop_overwrite_prefix:
  "i + length cs \<le> length bs \<Longrightarrow> n \<le> length cs \<Longrightarrow>
   take n (drop i (overwrite bs i cs)) = take n cs"
  by (simp add: overwrite_def)

lemma trimmed_replicate:
  "a \<notin> set cs \<Longrightarrow> b \<in> set cs \<Longrightarrow> 0 < n \<Longrightarrow>
   trimmed cs (replicate n a @ replicate k b) = replicate n a"
  by (cases n) (simp_all add: trimmed_def dropWhile_append3 dropWhile_append2 replicate_append_same)


lemma le_word_take4_update:
  "4 \<le> i \<Longrightarrow> le_word (take 4 (bs[i := v])) = (le_word (take 4 bs) :: 32 word)"
  by (simp add: take_update_cancel)

subsection \<open>Concatenation of inline values in place\<close>

lemma xs_concat_inline:
  assumes "length x = 16" "\<not> is_ptr x" "\<not> is_large_string x"
    and "length prefix = 16" "\<not> is_ptr prefix"
    and "length suffix = 16" "\<not> is_ptr suffix"
    and "xs_size x + xs_size prefix + xs_size suffix \<le> 15"
    and "suffix ! xs_size suffix = 0"
  defines "c \<equiv> take (xs_size x) x"
  defines "pc \<equiv> take (xs_size prefix) prefix"
  defines "sc \<equiv> take (xs_size suffix + 1) suffix"
  shows "xs_concat h x prefix suffix =
     Inr (set_space_left (15 - (xs_size x + xs_size prefix + xs_size suffix))
            (overwrite (overwrite (overwrite x (xs_size prefix) c) 0 pc)
               (xs_size prefix + xs_size x) sc), h)"
proof -
  let ?n = "xs_size x" and ?p = "xs_size prefix" and ?s = "xs_size suffix"
  have lc: "length c = ?n" "length pc = ?p" "length sc = ?s + 1"
    using assms(1,4,6,8) by (simp_all add: c_def pc_def sc_def)
  let ?x1 = "overwrite x ?p c" and ?x2 = "overwrite (overwrite x ?p c) 0 pc"
  let ?x3 = "overwrite (overwrite (overwrite x ?p c) 0 pc) (?p + ?n) sc"
  have l1: "length ?x1 = 16" using assms(1,8) lc by simp
  have l2: "length ?x2 = 16" using l1 assms(8) lc by simp
  have l3: "length ?x3 = 16" using l2 assms(8) lc by simp
  have ld1: "load h x (Own 0) ?n = Inr c"
    using assms(8) by (simp add: load_Own c_def)
  have st1: "store h x (Own ?p) c = Inr (?x1, h)"
    using assms(8) lc by (simp add: store_Own)
  have ld2: "load h prefix (Own 0) ?p = Inr pc"
    using assms(8) by (simp add: load_Own pc_def)
  have st2: "store h ?x1 (Own 0) pc = Inr (?x2, h)"
    using assms(8) lc by (simp add: store_Own)
  have ld3: "load h suffix (Own 0) (Suc ?s) = Inr sc"
    using assms(8) by (simp add: load_Own sc_def)
  have st3: "store h ?x2 (Own (?p + ?n)) sc = Inr (?x3, h)"
    using assms(8) lc by (simp add: store_Own)
  have d15: "15 - (?p + ?n) = ?s" if "?n + ?p + ?s = 15"
    using that by linarith
  have x15: "?x3 ! 15 = (if ?n + ?p + ?s = 15 then sc ! ?s else x ! 15)"
    using assms(1,8) l1 l2 lc by (auto simp: nth_overwrite d15)
  have np: "\<not> is_ptr ?x3"
  proof (cases "?n + ?p + ?s = 15")
    case False
    then show ?thesis using assms(2) by (simp add: is_ptr_def x15)
  next
    case True
    have "sc ! ?s = suffix ! ?s" by (simp add: sc_def)
    with True show ?thesis using assms(9) by (simp add: is_ptr_def x15)
  qed
  have s15: "sub64 15 (?n + ?p + ?s) = 15 - (?n + ?p + ?s)"
    using assms(8) by (intro sub64_simple) simp_all
  have sz: "xs_capacity x = 15" "xs_data x = Own 0" "xs_data prefix = Own 0" "xs_data suffix = Own 0"
    using assms(2,5,7) by (simp_all add: xs_capacity_def xs_data_def xs_is_ptr_def)
  show ?thesis
    using assms(3,8) np
    by (simp add: xs_concat_def Let_def xs_cow_lazy_copy_unshared sz ld1 st1 ld2 st2 ld3 st3 s15
        xs_is_ptr_def)
qed


lemma take_inline_of_n: "length c = n \<Longrightarrow> n \<le> 15 \<Longrightarrow> take n (inline_of c) = c"
  using take_inline_of [of c] by simp

lemma take_overwrite_split:
  "i + length cs \<le> length bs \<Longrightarrow> k \<le> length cs \<Longrightarrow>
   take (i + k) (overwrite bs i cs) = take i bs @ take k cs"
  by (simp add: overwrite_def)

lemma xs_concat_inline_observed:
  assumes "length x = 16" "\<not> is_ptr x" "\<not> is_large_string x"
    and "length prefix = 16" "\<not> is_ptr prefix"
    and "length suffix = 16" "\<not> is_ptr suffix"
    and "xs_size x + xs_size prefix + xs_size suffix \<le> 15"
    and "suffix ! xs_size suffix = 0"
  shows "\<exists>x'. xs_concat h x prefix suffix = Inr (x', h) \<and> variant_of x' = Inline \<and>
     content h x' =
       Inr (take (xs_size prefix) prefix @ take (xs_size x) x @ take (xs_size suffix) suffix) \<and>
     xs_size x' = xs_size prefix + xs_size x + xs_size suffix \<and>
     terminator h x' = Inr [0]"
proof -
  let ?n = "xs_size x" and ?p = "xs_size prefix" and ?s = "xs_size suffix"
  let ?c = "take ?n x" and ?pc = "take ?p prefix" and ?sc = "take (Suc ?s) suffix"
  let ?T = "?n + ?p + ?s"
  let ?x1 = "overwrite x ?p ?c"
  let ?x2 = "overwrite ?x1 0 ?pc"
  let ?x3 = "overwrite ?x2 (?p + ?n) ?sc"
  let ?x' = "set_space_left (15 - ?T) ?x3"
  have eq: "xs_concat h x prefix suffix = Inr (?x', h)"
    using xs_concat_inline [OF assms, of h] by simp
  have lc: "length ?c = ?n" "length ?pc = ?p" "length ?sc = ?s + 1"
    using assms(1,4,6,8) by simp_all
  have l1: "length ?x1 = 16" using assms(1,8) lc by simp
  have l2: "length ?x2 = 16" using l1 assms(8) lc by simp
  have l3: "length ?x3 = 16" using l2 assms(8) lc by simp
  have d15: "15 - (?p + ?n) = ?s" if "?T = 15"
    using that by linarith
  have x15: "?x3 ! 15 = (if ?T = 15 then ?sc ! ?s else x ! 15)"
    using assms(1,8) l1 l2 lc by (auto simp: nth_overwrite d15)
  have "is_ptr ?x' = is_ptr ?x3" using l3 by simp
  moreover have "\<not> is_ptr ?x3"
    using assms(2,9) by (simp add: is_ptr_def x15)
  ultimately have np: "\<not> is_ptr ?x'" by simp
  have "xs_size ?x' = 15 - space_left ?x'"
    using np by (simp add: xs_size_def [of ?x'] xs_is_ptr_def)
  also have "space_left ?x' = (15 - ?T) mod 16"
    using l3 by simp
  finally have sz: "xs_size ?x' = ?T"
    using assms(8) by simp
  have t2: "take (?p + ?n) ?x2 = ?pc @ ?c"
  proof -
    have "take (?p + ?n) ?x2 = ?pc @ take ?n (drop ?p ?x1)"
      using l1 lc assms(8) by (simp add: overwrite_def [of ?x1] take_drop)
    also have "take ?n (drop ?p ?x1) = ?c"
      using take_drop_overwrite [of ?p ?c x] assms(1,8) lc by simp
    finally show ?thesis .
  qed
  have T: "?T = (?p + ?n) + ?s" by simp
  have "take ((?p + ?n) + ?s) ?x' = take ((?p + ?n) + ?s) ?x3"
    using assms(8) by (simp add: set_space_left_def)
  also have "\<dots> = take (?p + ?n) ?x2 @ take ?s ?sc"
    using l2 lc assms(8) by (intro take_overwrite_split) simp_all
  also have "\<dots> = ?pc @ ?c @ take ?s suffix"
    by (simp add: t2)
  finally have "take ?T ?x' = ?pc @ ?c @ take ?s suffix"
    unfolding T .
  moreover have "load h ?x' (Own 0) ?T = Inr (take ?T ?x')"
    using assms(8) by (simp add: load_Own)
  ultimately have ct: "content h ?x' = Inr (?pc @ ?c @ take ?s suffix)"
    using np by (simp add: content_def xs_data_def xs_is_ptr_def sz)
  have "?x' ! ?T = 0"
  proof (cases "?T = 15")
    case True
    then show ?thesis
      using l3 assms(9) by (simp add: set_space_left_def x15)
  next
    case False
    then have lt: "?T < 15" using assms(8) by simp
    then have "?x' ! ?T = ?x3 ! ?T" by (simp add: set_space_left_def)
    also have "\<dots> = ?sc ! ?s"
      using l2 lc lt by (simp add: nth_overwrite)
    also have "\<dots> = 0" using assms(9) by simp
    finally show ?thesis .
  qed
  then have "take 1 (drop ?T ?x') = [0]"
    using l3 assms(8) by (simp add: take_Suc_conv_app_nth)
  then have tm: "terminator h ?x' = Inr [0]"
    using np assms(8) by (simp add: terminator_def xs_data_def xs_is_ptr_def sz load_Own)
  show ?thesis
    using eq np sz ct tm by (simp add: variant_of_Inline add.commute add.left_commute)
qed

text \<open>The two examples of the specification, as \<^verbatim>\<open>func_test\<close> runs them.\<close>

lemma xs_concat_example:
  "\<exists>x'. xs_concat heap0 (inline_of [109, 105, 100]) (inline_of [40]) (inline_of [41]) =
          Inr (x', heap0) \<and>
        content heap0 x' = Inr [40, 109, 105, 100, 41] \<and> xs_size x' = 5"
proof -
  let ?v = "inline_of [109, 105, 100]" and ?p = "inline_of [40]" and ?s = "inline_of [41]"
  have sz: "xs_size ?v = 3" "xs_size ?p = 1" "xs_size ?s = 1"
    by simp_all
  have tk: "take 3 ?v = [109, 105, 100]" "take 1 ?p = [40]" "take 1 ?s = [41]"
    by (rule take_inline_of_n; simp)+
  have tm: "?s ! 1 = 0"
    using nth_inline_of_term [of "[41]"] by simp
  have "\<exists>x'. xs_concat heap0 ?v ?p ?s = Inr (x', heap0) \<and> variant_of x' = Inline \<and>
     content heap0 x' = Inr (take (xs_size ?p) ?p @ take (xs_size ?v) ?v @ take (xs_size ?s) ?s) \<and>
     xs_size x' = xs_size ?p + xs_size ?v + xs_size ?s \<and> terminator heap0 x' = Inr [0]"
    by (rule xs_concat_inline_observed) (simp_all only: sz tm, simp_all)
  then show ?thesis
    unfolding sz tk by auto
qed

lemma xs_trim_example:
  "\<exists>x'. xs_trim heap0
          (inline_of [10, 32, 102, 111, 111, 98, 97, 114, 98, 97, 114, 32, 10, 10, 10]) [10, 32] =
          Inr (x', heap0) \<and>
        content heap0 x' = Inr [102, 111, 111, 98, 97, 114, 98, 97, 114] \<and> xs_size x' = 9"
proof -
  let ?c = "[10, 32, 102, 111, 111, 98, 97, 114, 98, 97, 114, 32, 10, 10, 10 :: byte]"
  let ?v = "inline_of ?c"
  have sz: "xs_size ?v = 15" by simp
  have tk: "take 15 ?v = ?c"
    by (rule take_inline_of_n) simp_all
  have tr: "trimmed (c_str [10, 32]) ?c = [102, 111, 111, 98, 97, 114, 98, 97, 114]"
    by (simp add: trimmed_def c_str_def)
  have "\<exists>x'. xs_trim heap0 ?v [10, 32] = Inr (x', heap0) \<and> variant_of x' = Inline \<and>
      content heap0 x' = Inr (trimmed (c_str [10, 32]) (take (xs_size ?v) ?v)) \<and>
      xs_size x' = length (trimmed (c_str [10, 32]) (take (xs_size ?v) ?v)) \<and>
      xs_capacity x' = 15 \<and> terminator heap0 x' = Inr [0]"
    by (rule xs_trim_inline_observed) (simp_all only: sz tk, simp_all add: c_str_def)
  then show ?thesis
    unfolding sz tk tr by auto
qed

section \<open>The claims\<close>

subsection \<open>Construction\<close>




subsection \<open>Copy on write\<close>

text \<open>
  \<^bold>\<open>C1.\<close> Trimming one alias of a shared buffer does not detach it with defined behaviour:
  \<^verbatim>\<open>xs_cow_lazy_copy\<close> makes the private copy and then reaches its closing brace without a
  \<^verbatim>\<open>return\<close>, and \<open>xs_trim\<close> uses the missing value to choose the buffer it writes to.
  So for a copy of a 256-byte string, trimmed with a cut set that matches nothing.
\<close>

theorem xs_trim_alias_no_return:
  "bnd (xs_new heap0 (replicate 256 97)) (\<lambda>(v, h).
     bnd (xs_copy h v) (\<lambda>(w, h'). xs_trim h' w [98])) = Inl NoReturnValue"
proof -
  have s: "strlen (replicate 256 (97 :: byte)) = 256"
    by (simp add: strlen_def)
  let ?v = "set_ptr (brk heap0) (set_is_large_string (heap_hdr 256 9))"
  let ?blk = "overwrite (overwrite (fresh_block heap0 (2 ^ 9 + 4)) 0 (le_bytes 4 (1 :: 32 word))) 4
      (c_str (replicate 256 97) @ [0])"
  let ?h = "heap0\<lparr>blocks := (blocks heap0)(brk heap0 \<mapsto> ?blk),
      brk := brk heap0 + (2 ^ 9 + 4) + 16\<rparr>"
  have n: "xs_new heap0 (replicate 256 97) = Inr (?v, ?h)"
    using xs_new_large [of "replicate 256 97" heap0] by (simp add: s bit_length_257 heap0_def)
  have v: "length ?v = 16" "is_ptr ?v" "is_large_string ?v" "fld_ptr ?v = 4096"
    "fld_size ?v = 256" "fld_capacity ?v = 9"
    by (simp_all add: heap0_def)
  have lb: "length ?blk = 516"
    by (simp add: c_str_def)
  have cb: "count_block ?h (fld_ptr ?v) 1"
    unfolding v(4) by (simp add: count_block_def heap0_def c_str_def)
  have cp: "xs_copy ?h ?v = Inr (?v, set_count ?h (fld_ptr ?v) (1 + 1))"
    using v(2,3) cb by (rule xs_copy_large) simp
  have "xs_trim (set_count ?h (fld_ptr ?v) 2) ?v [98] = Inl NoReturnValue"
  proof (rule xs_trim_shared_no_return
      [where c = 2 and bs = "overwrite ?blk 0 (le_bytes 4 (2 :: 32 word))"])
    show "count_block (set_count ?h (fld_ptr ?v) 2) (fld_ptr ?v) 2"
      using cb by (rule count_block_set_count)
    show "blocks (set_count ?h (fld_ptr ?v) 2) (fld_ptr ?v) =
        Some (overwrite ?blk 0 (le_bytes 4 (2 :: 32 word)))"
      unfolding v(4) by (simp add: heap0_def)
    show "4 + fld_size ?v \<le> length (overwrite ?blk 0 (le_bytes 4 (2 :: 32 word)))"
      unfolding v(5) using lb by simp
  qed (simp_all add: v, simp add: heap0_def)
  with n cp show ?thesis by simp
qed

subsection \<open>Concatenation\<close>

text \<open>
  \<^bold>\<open>C2.\<close> \<open>xs_concat\<close> does not always leave \<open>prefix @ c @ suffix\<close>. A 300-byte string is
  trimmed to 254 bytes (it stays in the large tier, capacity 511) and copied; the copy is
  concatenated with an empty prefix and a 254-byte suffix. \<open>xs_cow_lazy_copy\<close> detaches the
  copy into a block of \<open>2^9\<close> bytes chosen by the size, with no room for the header, while
  the data still starts at offset 4: the in-place path then writes the 509th byte one past
  the end of the block.
\<close>

theorem xs_concat_alias_overflows:
  "bnd (xs_new heap0 (replicate 254 97 @ replicate 46 32)) (\<lambda>(v, h1).
   bnd (xs_trim h1 v [32]) (\<lambda>(v, h2).
   bnd (xs_copy h2 v) (\<lambda>(w, h3).
   bnd (xs_new h3 []) (\<lambda>(pre, h4).
   bnd (xs_new h4 (replicate 254 41)) (\<lambda>(suf, h5).
     xs_concat h5 w pre suf))))) = Inl OutOfBounds"
proof -
  define p1 :: "byte list" where "p1 = replicate 254 97 @ replicate 46 32"
  have p1: "length p1 = 300" "0 \<notin> set p1" by (simp_all add: p1_def)
  then have sp: "strlen p1 = 300" "c_str p1 = p1"
    by (simp_all add: strlen_no_zero c_str_no_zero)
  \<comment> \<open>construction\<close>
  define v where "v = set_ptr (brk heap0) (set_is_large_string (heap_hdr 300 9))"
  define B1 where "B1 =
    overwrite (overwrite (fresh_block heap0 (2 ^ 9 + 4)) 0 (le_bytes 4 (1 :: 32 word))) 4 (p1 @ [0])"
  define h1 where "h1 = heap0\<lparr>blocks := (blocks heap0)(brk heap0 \<mapsto> B1),
    brk := brk heap0 + (2 ^ 9 + 4) + 16\<rparr>"
  have new: "xs_new heap0 p1 = Inr (v, h1)"
    using xs_new_large [of p1 heap0]
    by (simp add: sp bit_length_301 v_def h1_def B1_def heap0_def)
  have v: "length v = 16" "is_ptr v" "is_large_string v" "fld_ptr v = 4096" "fld_size v = 300"
    "fld_capacity v = 9"
    by (simp_all add: v_def heap0_def)
  have B1: "length B1 = 516" "le_word (take 4 B1) = (1 :: 32 word)" "take 300 (drop 4 B1) = p1"
    using p1(1) by (simp_all add: B1_def take_drop_overwrite_prefix)
  have h1: "blocks h1 4096 = Some B1" "brk h1 = 4628"
    by (simp_all add: h1_def heap0_def)
  \<comment> \<open>trim\<close>
  define m :: "byte list" where "m = replicate 254 97"
  have tr: "trimmed (c_str [32]) p1 = m"
    unfolding p1_def m_def by (rule trimmed_replicate) (simp_all add: c_str_def)
  define v2 where "v2 = set_size 254 v"
  define B2 where "B2 = (overwrite B1 4 m)[4 + 254 := 0]"
  define h2 where "h2 = h1\<lparr>blocks := (blocks h1)(4096 \<mapsto> B2)\<rparr>"
  have "xs_trim h1 v [32] =
      Inr (set_size (length (trimmed (c_str [32]) (take (fld_size v) (drop 4 B1)))) v,
           h1\<lparr>blocks := (blocks h1)(fld_ptr v \<mapsto>
             (overwrite B1 4 (trimmed (c_str [32]) (take (fld_size v) (drop 4 B1))))
               [4 + length (trimmed (c_str [32]) (take (fld_size v) (drop 4 B1))) := 0])\<rparr>)"
  proof (rule xs_trim_heap(1))
    show "\<not> is_large_string v \<or> (\<exists>c. count_block h1 (fld_ptr v) c \<and> sint c \<le> 1)"
      using h1(1) B1(1,2) by (auto simp: v(4) count_block_def)
    show "blocks h1 (fld_ptr v) = Some B1" by (simp add: v(4) h1)
    show "\<exists>b \<in> set (take (fld_size v) (drop 4 B1)). b \<notin> set (c_str [32])"
      by (simp add: v(5) B1(3) p1_def c_str_def)
  qed (simp_all add: v B1)
  then have trim: "xs_trim h1 v [32] = Inr (v2, h2)"
    by (simp add: v B1 tr v2_def h2_def B2_def m_def)
  have v2: "length v2 = 16" "is_ptr v2" "is_large_string v2" "fld_ptr v2 = 4096"
    "fld_size v2 = 254" "fld_capacity v2 = 9"
    using v by (simp_all add: v2_def)
  have B2: "length B2 = 516" "le_word (take 4 B2) = (1 :: 32 word)"
    using B1(1,2) by (simp_all add: B2_def m_def overwrite_def)
  have h2: "blocks h2 4096 = Some B2" "brk h2 = 4628"
    using h1(2) by (simp_all add: h2_def)
  have cb2: "count_block h2 (fld_ptr v2) 1"
    using h2(1) B2 by (simp add: count_block_def v2(4))
  \<comment> \<open>copy\<close>
  define h3 where "h3 = set_count h2 (fld_ptr v2) (1 + 1)"
  have copy: "xs_copy h2 v2 = Inr (v2, h3)"
    unfolding h3_def using v2(2,3) cb2 by (rule xs_copy_large) simp
  have cb3: "count_block h3 (fld_ptr v2) 2"
    using count_block_set_count [OF cb2, of "1 + 1"] by (simp add: h3_def)
  define B3 where "B3 = overwrite B2 0 (le_bytes 4 (2 :: 32 word))"
  have h3: "blocks h3 4096 = Some B3" "brk h3 = 4628" "length B3 = 516"
    using h2 B2(1) by (simp_all add: h3_def B3_def v2(4))
  \<comment> \<open>prefix and suffix\<close>
  have pre: "xs_new h3 [] = Inr (inline_of [], h3)"
    by (simp add: xs_new_inline strlen_def c_str_def)
  define sfx where "sfx = set_ptr (brk h3) (heap_hdr 254 8)"
  define SB where "SB = overwrite (fresh_block h3 (2 ^ 8)) 0 (replicate 254 41 @ [0])"
  define h5 where "h5 = h3\<lparr>blocks := (blocks h3)(brk h3 \<mapsto> SB), brk := brk h3 + 2 ^ 8 + 16\<rparr>"
  have suf: "xs_new h3 (replicate 254 41) = Inr (sfx, h5)"
    using xs_new_medium [of "replicate 254 41" h3] h3(2)
    by (simp add: strlen_no_zero c_str_no_zero bit_length_255 sfx_def h5_def SB_def)
  have sfx: "length sfx = 16" "is_ptr sfx" "\<not> is_large_string sfx" "fld_ptr sfx = 4628"
    "fld_size sfx = 254"
    using h3(2) by (simp_all add: sfx_def)
  have h5: "blocks h5 4096 = Some B3" "blocks h5 4628 = Some SB" "brk h5 = 4900" "length SB = 256"
    using h3 by (simp_all add: h5_def SB_def)
  have cb5: "count_block h5 (fld_ptr v2) 2"
    using cb3 h3(2) by (simp add: count_block_def h5_def v2(4))
  \<comment> \<open>concatenation\<close>
  have "xs_concat h5 v2 (inline_of []) sfx = Inl OutOfBounds"
  proof (rule xs_concat_detach_overflow [where c = 2 and bs = B3 and sb = SB])
    show "count_block h5 (fld_ptr v2) 2" by (rule cb5)
    show "blocks h5 (fld_ptr v2) = Some B3" by (simp add: v2(4) h5)
    show "blocks h5 (fld_ptr sfx) = Some SB" by (simp add: sfx(4) h5)
  qed (simp_all add: v2 sfx h5 h3)
  with new trim copy pre suf show ?thesis
    by (simp add: p1_def)
qed

subsection \<open>Trimming\<close>

text \<open>
  \<^bold>\<open>C3.\<close> When every byte of a non-empty content is in the cut set, \<open>xs_trim\<close> does not
  leave the empty content: the backward scan brings \<^verbatim>\<open>slen\<close> to 0, \<^verbatim>\<open>slen -= i\<close> wraps
  around, and \<^verbatim>\<open>memmove\<close> is called with a length of nearly \<open>2^64\<close>. So for the value
  \<open>" "\<close> and the cut set \<open>" "\<close>.
\<close>

theorem xs_trim_all_members_faults:
  "bnd (xs_new heap0 [32]) (\<lambda>(v, h). xs_trim h v [32]) = Inl OutOfBounds"
proof -
  let ?v = "inline_of [32]"
  have n: "xs_new heap0 [32] = Inr (?v, heap0)"
    by (simp add: xs_new_inline strlen_def c_str_def)
  have "take (length [32 :: byte]) ?v = [32]"
    by (rule take_inline_of) simp
  then have "?v ! 0 = 32"
    by (metis length_Cons list.size(3) nth_Cons_0 nth_take zero_less_Suc)
  then have "xs_trim heap0 ?v [32] = Inl OutOfBounds"
    by (intro xs_trim_inline_all_members) (simp_all add: c_str_def)
  with n show ?thesis by simp
qed



subsection \<open>Capacity\<close>

text \<open>
  \<^bold>\<open>C5\<close>, as stated: the capacity exponent stored for a content length \<open>n\<close> is the least
  \<open>k\<close> with \<open>2 ^ k - 1 \<ge> n\<close>. It fails for construction whenever \<open>n + 1\<close> is a power of
  two: for \<open>n = 31\<close> the exponent 5 would do, and \<open>xs_new\<close> stores 6.
\<close>

theorem xs_new_exponent_not_minimal:
  "map_option fld_capacity (result_value (xs_new heap0 (replicate 31 97))) = Some 6 \<and>
   \<not> min_exponent (strlen (replicate 31 (97 :: byte))) 6"
proof -
  have s: "strlen (replicate 31 (97 :: byte)) = 31"
    by (simp add: strlen_def)
  have "xs_new heap0 (replicate 31 97) =
      Inr (set_ptr (brk heap0) (heap_hdr 31 6),
           heap0\<lparr>blocks := (blocks heap0)(brk heap0 \<mapsto>
                    overwrite (fresh_block heap0 (2 ^ 6)) 0 (c_str (replicate 31 97) @ [0])),
                 brk := brk heap0 + 2 ^ 6 + 16\<rparr>)"
    using xs_new_medium [of "replicate 31 97" heap0]
    by (simp add: s bit_length_32 heap0_def)
  then show ?thesis
    by (simp add: result_value_def s min_exponent_def)
qed

text \<open>
  \<^bold>\<open>C5\<close>, amended: the stored exponent is \<open>ilog2 L + 1\<close>, the least \<open>k\<close> with
  \<open>2 ^ k - 1 \<ge> L\<close>, where \<open>L = n + 1\<close> (content length plus terminator) when \<open>xs_new\<close>
  allocates for a content of length \<open>n \<ge> 16\<close>, and \<open>L = len\<close> when \<open>xs_grow\<close> grows to
  \<open>len\<close>; the capacity is \<open>2 ^ k - 1\<close>. (Lengths below \<open>2^30\<close> for construction and
  below \<open>2^32\<close> for growth.)
\<close>

theorem capacity_exponent:
  "(16 \<le> strlen p \<and> strlen p + 1 < 2 ^ 30 \<and> brk h < 2 ^ 64 \<longrightarrow>
      (\<exists>x h'. xs_new h p = Inr (x, h') \<and>
         min_exponent (strlen p + 1) (fld_capacity x) \<and>
         xs_capacity x = 2 ^ fld_capacity x - 1)) \<and>
   (length v = 16 \<and> xs_capacity v < len \<and> len < 2 ^ 32 \<and> xs_grow g v len = Inr (v', g') \<longrightarrow>
      min_exponent len (fld_capacity v') \<and> xs_capacity v' = 2 ^ fld_capacity v' - 1)"
proof (intro conjI impI)
  assume "16 \<le> strlen p \<and> strlen p + 1 < 2 ^ 30 \<and> brk h < 2 ^ 64"
  then obtain x h' where "xs_new h p = Inr (x, h')" "is_ptr x"
    "fld_capacity x = bit_length (strlen p + 1)"
    using xs_new_heap_capacity [of p h] by blast
  then show "\<exists>x h'. xs_new h p = Inr (x, h') \<and>
         min_exponent (strlen p + 1) (fld_capacity x) \<and>
         xs_capacity x = 2 ^ fld_capacity x - 1"
    by (simp add: min_exponent_bit_length xs_capacity_heap)
next
  assume a: "length v = 16 \<and> xs_capacity v < len \<and> len < 2 ^ 32 \<and> xs_grow g v len = Inr (v', g')"
  then have "fld_capacity v' = bit_length len" "is_ptr v'"
    using xs_grow_capacity [of v len g v' g'] by simp_all
  moreover have "0 < len" using a by simp
  ultimately show "min_exponent len (fld_capacity v')" "xs_capacity v' = 2 ^ fld_capacity v' - 1"
    by (simp_all add: min_exponent_bit_length xs_capacity_heap)
qed

theorem capacity_exponent_witness:
  "(\<exists>x h'. xs_new heap0 (replicate 31 97) = Inr (x, h') \<and>
      min_exponent 32 (fld_capacity x) \<and> xs_capacity x = 2 ^ fld_capacity x - 1) \<and>
   (\<exists>v' g'. xs_grow heap0 xs_literal_empty 40 = Inr (v', g') \<and>
      min_exponent 40 (fld_capacity v') \<and> xs_capacity v' = 2 ^ fld_capacity v' - 1)"
proof -
  have s: "strlen (replicate 31 (97 :: byte)) = 31"
    by (simp add: strlen_def)
  obtain v' g' where g: "xs_grow heap0 xs_literal_empty 40 = Inr (v', g')"
    using xs_grow_empty_medium [of 40 heap0] by simp
  have c: "xs_capacity xs_literal_empty = 15"
    by (simp add: xs_capacity_def xs_is_ptr_def)
  show ?thesis
    using capacity_exponent [of "replicate 31 97" heap0 xs_literal_empty 40 heap0 v' g'] g
    by (simp add: s c heap0_def)
qed


subsection \<open>Reference counting\<close>

text \<open>
  \<^bold>\<open>C6.\<close> Copying a Shared-heap value of reference count 1 \<open>m\<close> times brings the count to
  \<open>m + 1\<close>, seen through every alias; releasing any \<open>m\<close> of the \<open>m + 1\<close> aliases brings it
  back to 1, and the buffer is still allocated. (For \<open>m + 1\<close> within the range of \<^verbatim>\<open>int\<close>.)
\<close>

theorem xs_copy_free_count:
  assumes "variant_of v = Shared_heap" and "xs_get_ref_count h v = Inr 1" and "int m < 2 ^ 31 - 1"
  shows "\<exists>ds h1. xs_copy_times m h v = Inr (ds, h1) \<and> length ds = m \<and>
           (\<forall>a \<in> set (v # ds). xs_get_ref_count h1 a = Inr (int m + 1)) \<and>
           (\<forall>rel. length rel = m \<and> set rel \<subseteq> set (v # ds) \<longrightarrow>
              (\<exists>h2. xs_free_all h1 rel = Inr h2 \<and>
                 (\<forall>a \<in> set (v # ds). xs_get_ref_count h2 a = Inr 1) \<and>
                 blocks h2 (fld_ptr v) \<noteq> None))"
proof -
  from assms(1) have v: "is_ptr v" "is_large_string v"
    by (simp_all add: variant_of_Shared_heap)
  obtain c where c: "count_block h (fld_ptr v) c" "sint c = 1"
    using count_block_of_get [OF v(2) assms(2)] by blast
  obtain h1 c1 where h1: "xs_copy_times m h v = Inr (replicate m v, h1)"
    "count_block h1 (fld_ptr v) c1" "sint c1 = 1 + int m"
    using xs_copy_times_large [OF v c(1), of m] c(2) assms(3) by auto
  have g1: "xs_get_ref_count h1 v = Inr (int m + 1)"
    using xs_get_ref_count_large [OF v(2) h1(2)] h1(3) by simp
  have rel: "\<exists>h2. xs_free_all h1 rel = Inr h2 \<and> xs_get_ref_count h2 v = Inr 1 \<and>
      blocks h2 (fld_ptr v) \<noteq> None"
    if "length rel = m" "set rel \<subseteq> {v}" for rel
  proof -
    have r: "rel = replicate m v" using that by (rule replicate_of_set)
    obtain h2 c2 where h2: "xs_free_all h1 (replicate m v) = Inr h2"
      "count_block h2 (fld_ptr v) c2" "sint c2 = sint c1 - int m"
      using xs_free_all_large [OF v h1(2), of m] h1(3) by auto
    then have "xs_get_ref_count h2 v = Inr 1"
      using xs_get_ref_count_large [OF v(2) h2(2)] h1(3) by simp
    moreover have "blocks h2 (fld_ptr v) \<noteq> None"
      using h2(2) by (auto simp: count_block_def)
    ultimately show ?thesis using h2(1) r by blast
  qed
  have sv: "set (v # replicate m v) = {v}" by auto
  show ?thesis
  proof (intro exI conjI)
    show "xs_copy_times m h v = Inr (replicate m v, h1)" by fact
    show "length (replicate m v) = m" by simp
    show "\<forall>a \<in> set (v # replicate m v). xs_get_ref_count h1 a = Inr (int m + 1)"
      unfolding sv using g1 by simp
    show "\<forall>rel. length rel = m \<and> set rel \<subseteq> set (v # replicate m v) \<longrightarrow>
        (\<exists>h2. xs_free_all h1 rel = Inr h2 \<and>
           (\<forall>a \<in> set (v # replicate m v). xs_get_ref_count h2 a = Inr 1) \<and>
           blocks h2 (fld_ptr v) \<noteq> None)"
      unfolding sv using rel by simp
  qed
qed


theorem xs_copy_free_count_witness:
  "\<exists>v h ds h1 h2. xs_new heap0 (replicate 256 97) = Inr (v, h) \<and>
     xs_copy_times 2 h v = Inr (ds, h1) \<and> xs_get_ref_count h1 v = Inr 3 \<and>
     xs_free_all h1 ds = Inr h2 \<and> xs_get_ref_count h2 v = Inr 1 \<and>
     blocks h2 (fld_ptr v) \<noteq> None"
proof -
  have s: "strlen (replicate 256 (97 :: byte)) = 256"
    by (simp add: strlen_def)
  obtain v h where v: "xs_new heap0 (replicate 256 97) = Inr (v, h)"
    "variant_of v = Shared_heap" "xs_get_ref_count h v = Inr 1"
    using xs_new_large_variant [of "replicate 256 97" heap0] by (auto simp: s heap0_def)
  obtain ds h1 where d: "xs_copy_times 2 h v = Inr (ds, h1)" "length ds = 2"
    "\<forall>a \<in> set (v # ds). xs_get_ref_count h1 a = Inr (int 2 + 1)"
    "\<forall>rel. length rel = 2 \<and> set rel \<subseteq> set (v # ds) \<longrightarrow>
       (\<exists>h2. xs_free_all h1 rel = Inr h2 \<and>
          (\<forall>a \<in> set (v # ds). xs_get_ref_count h2 a = Inr 1) \<and>
          blocks h2 (fld_ptr v) \<noteq> None)"
    using xs_copy_free_count [OF v(2,3), of 2] by auto
  from d(4) [rule_format, of ds] d(2)
  obtain h2 where "xs_free_all h1 ds = Inr h2" "xs_get_ref_count h2 v = Inr 1"
    "blocks h2 (fld_ptr v) \<noteq> None"
    by auto
  with v(1) d(1,3) show ?thesis by auto
qed


subsection \<open>Growth of an Inline value\<close>

text \<open>
  \<^bold>\<open>C7.\<close> Growing an Inline value keeps neither its bytes nor its length: \<open>xs_grow\<close> sets
  \<^verbatim>\<open>is_ptr\<close> before it tests it, so it always takes the \<^verbatim>\<open>realloc\<close> branch, with the
  first eight inline bytes read as the pointer. For the value built from \<open>"abc"\<close> that
  pointer is \<open>0x636261\<close>, no block of the heap.
\<close>

theorem xs_grow_inline_faults:
  "bnd (xs_new heap0 [97, 98, 99]) (\<lambda>(v, h). xs_grow h v 16) = Inl InvalidPointer"
proof -
  let ?v = "inline_of [97, 98, 99]"
  have n: "xs_new heap0 [97, 98, 99] = Inr (?v, heap0)"
    by (simp add: xs_new_inline strlen_def c_str_def)
  have "take 8 ?v = 97 # 98 # 99 # 0 # replicate 4 0"
    by (simp add: inline_of_def set_space_left_def overwrite_def xs_literal_empty_def)
  then have "fld_ptr ?v \<noteq> 0"
    by (auto simp: fld_ptr_def unat_eq_0 dest: le_word_Cons_0)
  then have "xs_grow heap0 ?v 16 = Inl InvalidPointer"
    by (intro xs_grow_inline_invalid) (simp_all add: heap0_def)
  with n show ?thesis by simp
qed

subsection \<open>Release\<close>

text \<open>
  \<^bold>\<open>C8.\<close> \<open>xs_free\<close> on a live value (Inline, or heap-backed with its buffer allocated and,
  when shared, a reference count of at least 1) returns the canonical empty Inline value:
  length 0, capacity 15, not heap-backed. An Inline value leaves the heap as it is; an
  Exclusive-heap buffer is freed; a Shared-heap count is decremented first, and the buffer
  is freed exactly when the count was 1. Releasing the empty value again changes nothing.
\<close>

theorem xs_free_resets:
  assumes "variant_of v = Inline \<or>
           (variant_of v = Exclusive_heap \<and> fld_ptr v \<noteq> 0 \<and> blocks h (fld_ptr v) \<noteq> None) \<or>
           (variant_of v = Shared_heap \<and> fld_ptr v \<noteq> 0 \<and> xs_get_ref_count h v = Inr c \<and> 1 \<le> c)"
  shows "\<exists>h'. xs_free h v = Inr (xs_literal_empty, h') \<and>
           xs_size xs_literal_empty = 0 \<and> xs_capacity xs_literal_empty = 15 \<and>
           variant_of xs_literal_empty = Inline \<and>
           (variant_of v = Inline \<longrightarrow> h' = h) \<and>
           (variant_of v = Exclusive_heap \<longrightarrow> h' = h\<lparr>blocks := (blocks h)(fld_ptr v := None)\<rparr>) \<and>
           (variant_of v = Shared_heap \<and> c = 1 \<longrightarrow> blocks h' (fld_ptr v) = None) \<and>
           (variant_of v = Shared_heap \<and> 1 < c \<longrightarrow>
              blocks h' (fld_ptr v) \<noteq> None \<and> xs_get_ref_count h' v = Inr (c - 1)) \<and>
           xs_free h' xs_literal_empty = Inr (xs_literal_empty, h')"
proof -
  have e: "xs_size xs_literal_empty = 0" "xs_capacity xs_literal_empty = 15"
    "variant_of xs_literal_empty = Inline"
    "\<And>g. xs_free g xs_literal_empty = Inr (xs_literal_empty, g)"
    by (simp_all add: xs_size_def xs_capacity_def xs_is_ptr_def variant_of_def xs_free_inline)
  from assms consider
      (inl) "variant_of v = Inline"
    | (med) "variant_of v = Exclusive_heap" "fld_ptr v \<noteq> 0" "blocks h (fld_ptr v) \<noteq> None"
    | (lrg) "variant_of v = Shared_heap" "fld_ptr v \<noteq> 0" "xs_get_ref_count h v = Inr c" "1 \<le> c"
    by blast
  then show ?thesis
  proof cases
    case inl
    then have "xs_free h v = Inr (xs_literal_empty, h)"
      by (simp add: variant_of_Inline xs_free_inline)
    then show ?thesis
      using e inl by simp
  next
    case med
    then have "xs_free h v = Inr (xs_literal_empty, h\<lparr>blocks := (blocks h)(fld_ptr v := None)\<rparr>)"
      by (simp add: variant_of_Exclusive_heap xs_free_medium)
    then show ?thesis
      using e med(1) by simp
  next
    case lrg
    then have v: "is_ptr v" "is_large_string v"
      by (simp_all add: variant_of_Shared_heap)
    obtain w where w: "count_block h (fld_ptr v) w" "sint w = c"
      using count_block_of_get [OF v(2) lrg(3)] by blast
    show ?thesis
    proof (cases "c = 1")
      case True
      then have "w \<noteq> 0x80000000" using w(2) by auto
      then have "xs_free h v = Inr (xs_literal_empty, h\<lparr>blocks := (blocks h)(fld_ptr v := None)\<rparr>)"
        using v w True lrg(2) by (intro xs_free_large_last) simp_all
      then show ?thesis
        using e lrg(1) True by simp
    next
      case False
      then have gt: "1 < sint w" using lrg(4) w(2) by simp
      then have nm: "w \<noteq> 0x80000000" by auto
      have f: "xs_free h v = Inr (xs_literal_empty, set_count h (fld_ptr v) (w - 1))"
        using v w(1) gt by (rule xs_free_large_shared)
      have "count_block (set_count h (fld_ptr v) (w - 1)) (fld_ptr v) (w - 1)"
        using w(1) by simp
      then have "xs_get_ref_count (set_count h (fld_ptr v) (w - 1)) v = Inr (c - 1)"
        using xs_get_ref_count_large [OF v(2)] sint_dec [OF nm] w(2) by simp
      then show ?thesis
        using e lrg(1) False f by simp
    qed
  qed
qed

theorem xs_free_resets_witness:
  "(\<exists>h'. xs_free heap0 (inline_of [109, 105, 100]) = Inr (xs_literal_empty, h') \<and> h' = heap0) \<and>
   (\<exists>v h h'. xs_new heap0 (replicate 256 97) = Inr (v, h) \<and>
      xs_free h v = Inr (xs_literal_empty, h') \<and> blocks h' (fld_ptr v) = None \<and>
      xs_free h' xs_literal_empty = Inr (xs_literal_empty, h'))"
proof -
  have s: "strlen (replicate 256 (97 :: byte)) = 256"
    by (simp add: strlen_def)
  have n: "xs_new heap0 (replicate 256 97) =
      Inr (set_ptr (brk heap0) (set_is_large_string (heap_hdr 256 (bit_length 257))),
           heap0\<lparr>blocks := (blocks heap0)(brk heap0 \<mapsto>
                    overwrite (overwrite (fresh_block heap0 (2 ^ bit_length 257 + 4)) 0
                      (le_bytes 4 (1 :: 32 word))) 4 (c_str (replicate 256 97) @ [0])),
                 brk := brk heap0 + (2 ^ bit_length 257 + 4) + 16\<rparr>)"
    (is "_ = Inr (?v, ?h)")
    using xs_new_large [of "replicate 256 97" heap0] by (simp add: s heap0_def)
  have p: "fld_ptr ?v \<noteq> 0" by (simp add: heap0_def)
  obtain v h where v: "xs_new heap0 (replicate 256 97) = Inr (v, h)"
    "variant_of v = Shared_heap" "xs_get_ref_count h v = Inr 1"
    using xs_new_large_variant [of "replicate 256 97" heap0] by (auto simp: s heap0_def)
  with n p have p': "fld_ptr v \<noteq> 0" by simp
  show ?thesis
    using xs_free_resets [of "inline_of [109, 105, 100]" heap0 0]
      xs_free_resets [of v h 1] v p'
    by auto
qed

subsection \<open>The terminator\<close>

text \<open>
  \<^bold>\<open>C9.\<close> The destination of \<open>xs_copy\<close> from an Exclusive-heap source has no terminator of
  its own: \<^verbatim>\<open>memcpy\<close> copies \<^verbatim>\<open>src->size\<close> bytes into a fresh \<^verbatim>\<open>malloc\<close> block, so the byte
  at index \<open>length\<close> is uninitialised memory. In a heap whose fresh memory reads \<open>0xAA\<close>,
  the copy of a 16-byte string ends in \<open>0xAA\<close>, not in 0.
\<close>

theorem xs_copy_medium_unterminated:
  "bnd (xs_new heap0 (replicate 16 97)) (\<lambda>(v, h).
     bnd (xs_copy h v) (\<lambda>(d, h'). terminator h' d)) = Inr [0xAA]"
proof -
  have s: "strlen (replicate 16 (97 :: byte)) = 16"
    by (simp add: strlen_def)
  let ?v = "set_ptr (brk heap0) (heap_hdr 16 5)"
  let ?blk = "overwrite (fresh_block heap0 (2 ^ 5)) 0 (c_str (replicate 16 97) @ [0])"
  let ?h = "heap0\<lparr>blocks := (blocks heap0)(brk heap0 \<mapsto> ?blk), brk := brk heap0 + 2 ^ 5 + 16\<rparr>"
  have n: "xs_new heap0 (replicate 16 97) = Inr (?v, ?h)"
    using xs_new_medium [of "replicate 16 97" heap0] by (simp add: s bit_length_17 heap0_def)
  have "bnd (xs_copy ?h ?v) (\<lambda>(d, h'). terminator h' d) = Inr [junk ?h (brk ?h + fld_size ?v)]"
    by (rule xs_copy_medium_terminator [where bs = ?blk]) (simp_all add: heap0_def c_str_def)
  with n show ?thesis by (simp add: heap0_def)
qed



subsection \<open>The cut set of a trim\<close>

text \<open>
  \<^bold>\<open>C10.\<close> \<open>xs_trim\<close> reads its cut set as a NUL-terminated string: the bitmap holds
  exactly the bytes before the first zero byte, so the result does not depend on what
  follows it; the byte 0 is never in the bitmap, and both scans stop at a zero byte; a
  cut set that starts with a zero byte leaves the value and the heap as they are.
\<close>

theorem xs_trim_cutset_nul_terminated:
  "(check_bit (trim_mask ts) b \<longleftrightarrow> b \<in> set (c_str ts)) \<and>
   \<not> check_bit (trim_mask ts) 0 \<and>
   xs_trim h x ts = xs_trim h x (c_str ts) \<and>
   (rd i = Inr 0 \<longrightarrow> scan_fwd rd (trim_mask ts) i (Suc k) = Inr i) \<and>
   (rd k = Inr 0 \<longrightarrow> scan_bwd rd (trim_mask ts) (Suc k) = Inr (Suc k)) \<and>
   (hd (ts @ [0]) = 0 \<longrightarrow> xs_trim h x ts = Inr (x, h))"
  by (simp add: check_bit_trim_mask zero_notin_c_str xs_trim_def trim_mask_c_str hd_c_str)

theorem xs_trim_cutset_nul_terminated_witness:
  "check_bit (trim_mask [32, 0, 10]) 32 \<and> \<not> check_bit (trim_mask [32, 0, 10]) 10 \<and>
   \<not> check_bit (trim_mask [32, 0, 10]) 0 \<and>
   xs_trim heap0 (inline_of [32, 97]) [32, 0, 10] = xs_trim heap0 (inline_of [32, 97]) [32] \<and>
   scan_fwd (\<lambda>i. Inr 0) (trim_mask [32, 0, 10]) 0 (Suc 0) = Inr 0 \<and>
   scan_bwd (\<lambda>i. Inr 0) (trim_mask [32, 0, 10]) (Suc 0) = Inr (Suc 0) \<and>
   xs_trim heap0 (inline_of [32, 97]) [0, 32] = Inr (inline_of [32, 97], heap0)"
  using xs_trim_cutset_nul_terminated [of "[32, 0, 10]" 32 heap0 "inline_of [32, 97]" "\<lambda>i. Inr 0" 0 0]
    xs_trim_cutset_nul_terminated [of "[32, 0, 10]" 10 heap0 "inline_of [32, 97]" "\<lambda>i. Inr 0" 0 0]
    xs_trim_cutset_nul_terminated [of "[0, 32]" 0 heap0 "inline_of [32, 97]" "\<lambda>i. Inr 0" 0 0]
  by (simp add: c_str_def xs_trim_empty_cutset)

end
